theory Spec2Isabelle
  imports Main "HOL-Library.Sublist"
begin

section \<open>Data model of \<open>src/index.ts\<close>\<close>

text \<open>
  The interfaces \<open>MessageAuthor\<close>, \<open>Message\<close> and \<open>SearchResponse\<close>. An optional
  field (\<open>username?\<close>, \<open>content?\<close>, ...) is an \<open>option\<close>. The fields \<open>id\<close> and
  \<open>type\<close> are called \<open>msg_id\<close> and \<open>msg_type\<close>, the author's \<open>id\<close> is \<open>author_id\<close>.
  An attachment is typed \<open>any\<close> in the source; only its \<open>url\<close> and \<open>proxy_url\<close> are read.
\<close>

record messageAuthor =
  author_id :: string
  username :: "string option"

record attachment =
  url :: "string option"
  proxy_url :: "string option"

record message =
  msg_id :: string
  author :: messageAuthor
  msg_type :: int
  hit :: bool
  content :: "string option"
  timestamp :: "string option"
  attachments :: "attachment list option"

text \<open>
  An HTTP response as the code reads it: the \<open>status\<close>, and the JSON body, of which the
  code reads \<open>retry_after\<close> (status 202 and 429) or \<open>total_results\<close> and \<open>messages\<close>
  (a successful search). The body is taken to be JSON that carries the fields read, with
  integer numbers. A call of \<open>fetch\<close> either resolves to a response or rejects (a
  transport failure).
\<close>

record searchResponse =
  retry_after :: int
  total_results :: int
  messages :: "message list list"

record response =
  status :: nat
  body :: searchResponse

datatype reply = Network_Failure | Response response

text \<open>\<open>response.ok\<close> of the fetch API: the status is in the range 200 to 299.\<close>

definition ok :: "response \<Rightarrow> bool" where
  "ok r = (200 \<le> status r \<and> status r \<le> 299)"

text \<open>
  The two requests the code builds. A configuration field is a \<open>string option\<close>: the
  constructor receives \<open>process.env.X!\<close>, and the non-null assertion is erased by the
  compiler, so the field holds \<open>undefined\<close> (\<open>None\<close>) when the variable is not set.
\<close>

datatype request =
    Search_Request (req_auth: "string option") (req_channel: "string option")
      (req_author: "string option") (req_max_id: "string option")
  | Delete_Request (req_auth: "string option") (req_channel: "string option")
      (req_message: string)

text \<open>The errors the code throws: one value for each \<open>throw\<close>, one for a rejected fetch.\<close>

datatype error =
    Api_Status nat               \<comment> \<open>\<open>API responded with status N\<close> (search)\<close>
  | Delete_Failed string nat     \<comment> \<open>\<open>Failed to delete message ID: N\<close>\<close>
  | Fetch_Rejected               \<comment> \<open>the promise of \<open>fetch\<close> rejected\<close>

text \<open>
  The record appended to the backup file by \<open>saveMessageContent\<close>. The date is kept as
  the message's timestamp; its rendering by \<open>toLocaleString\<close> is left out.
\<close>

record backupRecord =
  rec_id :: string
  rec_date :: "string option"    \<comment> \<open>\<open>None\<close> prints as \<open>Unknown date\<close>\<close>
  rec_author :: string
  rec_content :: string
  rec_attachments :: "string list"

text \<open>The lines the code passes to \<open>writeToLog\<close>, one constructor for each call site.\<close>

datatype logLine =
    Session_Start
  | Header_Date_Time int
  | Header_Channel "string option"
  | Header_Author "string option"
  | Header_Before string
  | Header_Rule
  | Starting_Deletion int
  | Total_Messages_Found int
  | Channel_Not_Indexed int
  | Rate_Limit_Reached int
  | Rate_Limit_On_Deletion int
  | Successfully_Deleted string
  | Progress nat int string              \<comment> \<open>\<open>delCount + 1\<close>, \<open>grandTotal\<close>, the message's ID\<close>
  | Error_Deleting string error
  | Error_During_Processing error
  | Summary int int nat int nat nat
      \<comment> \<open>end time, total time, throttle count, throttle time, deleted, failed\<close>

text \<open>
  The effects of a run, in the order the code performs them: an HTTP call, a timed
  suspension, a line of the operation log or of the error log, a record or the header of
  the backup file, and the \<open>console.error\<close> of the script's last line.
\<close>

datatype event =
    Fetch request
  | Wait int
  | Log logLine
  | Error_Log logLine
  | Backup backupRecord
  | Backup_Header "string option" "string option"
  | Fatal_Error error

text \<open>
  The object \<open>DiscordMessageDeleter\<close> with its \<open>stats\<close>, and the world it runs in:
  the clock \<open>now\<close> (milliseconds, read by \<open>Date.now()\<close> and advanced by \<open>wait\<close>), the
  replies \<open>server\<close> the API will give to the calls still to come, in order, and the
  \<open>trace\<close> of effects so far (oldest first). Time passes only in \<open>wait\<close>. The numbers
  of the source are doubles; the model's \<open>int\<close> and \<open>nat\<close> agree with them on the safe
  integers (magnitude at most \<open>2^53 - 1\<close>, see \<open>safe_integer\<close> below). The writes
  to the three log files are taken to succeed and are recorded in the trace; the names of
  the files are left out. The \<open>SIGINT\<close> handler of the script, which may run between
  any two steps, is not part of the model.
\<close>

record deleter =
  authToken :: "string option"
  authorId :: "string option"
  channelId :: "string option"
  beforeMessageId :: "string option"
  lastApiCall :: int
  delCount :: nat
  failCount :: nat
  throttledCount :: nat
  throttledTotalTime :: int
  grandTotal :: int
  startTime :: int
  now :: int
  server :: "reply list"
  trace :: "event list"


definition delayDelete :: int where "delayDelete = 1000"
definition delaySearch :: int where "delaySearch = 1500"
definition rateLimit :: int where "rateLimit = 1000"

text \<open>
  What a call of an \<open>async\<close> method comes to: it returns, it throws, or it never
  settles because the server gives no further reply (the list \<open>server\<close> is used up).
\<close>

datatype 'a outcome = Returned 'a | Threw error | Pending

section \<open>The methods\<close>

definition emit :: "event \<Rightarrow> deleter \<Rightarrow> deleter" where
  "emit e s = s\<lparr>trace := trace s @ [e]\<rparr>"

definition writeToLog :: "logLine \<Rightarrow> bool \<Rightarrow> deleter \<Rightarrow> deleter" where
  "writeToLog l isError s = emit (if isError then Error_Log l else Log l) s"

text \<open>JavaScript's \<open>a || b\<close> on an optional string: \<open>undefined\<close> and \<open>''\<close> are falsy.\<close>

definition truthy :: "string option \<Rightarrow> string option" where
  "truthy x = (case x of None \<Rightarrow> None | Some v \<Rightarrow> if v = [] then None else Some v)"

definition attachment_line :: "attachment \<Rightarrow> string" where
  "attachment_line a =
     (case truthy (url a) of
        Some u \<Rightarrow> u
      | None \<Rightarrow> (case truthy (proxy_url a) of
                   Some p \<Rightarrow> p
                 | None \<Rightarrow> ''[URL not available]''))"

definition backup_record :: "message \<Rightarrow> backupRecord" where
  "backup_record m =
     \<lparr>rec_id = msg_id m,
      rec_date = truthy (timestamp m),
      rec_author = (case truthy (username (author m)) of
                      Some u \<Rightarrow> u
                    | None \<Rightarrow> author_id (author m)),
      rec_content = (case truthy (content m) of Some c \<Rightarrow> c | None \<Rightarrow> ''[no content]''),
      rec_attachments = (case attachments m of
                           None \<Rightarrow> []
                         | Some as \<Rightarrow> map attachment_line as)\<rparr>"

definition saveMessageContent :: "message \<Rightarrow> deleter \<Rightarrow> deleter" where
  "saveMessageContent m s = emit (Backup (backup_record m)) s"

text \<open>
  \<open>wait(ms)\<close> is \<open>setTimeout(resolve, ms)\<close>. Node runs a timer whose delay is below 1 or
  above \<open>TIMEOUT_MAX\<close> (2147483647, 32 bits signed) with a delay of 1 millisecond, so the
  clock advances by \<open>timer_delay ms\<close>.
\<close>

definition TIMEOUT_MAX :: int where "TIMEOUT_MAX = 2147483647"

definition timer_delay :: "int \<Rightarrow> int" where
  "timer_delay ms = (if 1 \<le> ms \<and> ms \<le> TIMEOUT_MAX then ms else 1)"

definition wait :: "int \<Rightarrow> deleter \<Rightarrow> deleter" where
  "wait ms s = emit (Wait ms) (s\<lparr>now := now s + timer_delay ms\<rparr>)"

definition enforceRateLimit :: "deleter \<Rightarrow> deleter" where
  "enforceRateLimit s =
     (let timeSinceLastCall = now s - lastApiCall s;
          s1 = (if timeSinceLastCall < rateLimit
                then wait (rateLimit - timeSinceLastCall) s else s)
      in s1\<lparr>lastApiCall := now s1\<rparr>)"

text \<open>The search URL: \<open>max_id\<close> is appended only if \<open>beforeMessageId\<close> is truthy.\<close>

definition search_request :: "deleter \<Rightarrow> request" where
  "search_request s =
     Search_Request (authToken s) (channelId s) (authorId s) (truthy (beforeMessageId s))"

definition delete_request :: "string \<Rightarrow> deleter \<Rightarrow> request" where
  "delete_request messageId s = Delete_Request (authToken s) (channelId s) messageId"

lemma server_emit [simp]: "server (emit e s) = server s"
  by (simp add: emit_def)

lemma server_writeToLog [simp]: "server (writeToLog l b s) = server s"
  by (simp add: writeToLog_def)

lemma server_wait [simp]: "server (wait ms s) = server s"
  by (simp add: wait_def)

lemma server_enforceRateLimit [simp]: "server (enforceRateLimit s) = server s"
  by (simp add: enforceRateLimit_def Let_def)

text \<open>
  \<open>fetchMessages\<close>. Each call of \<open>fetch\<close> takes the next reply of the server; the
  recursive calls after a 202 and a 429 are the source's own.
\<close>

function fetchMessages :: "deleter \<Rightarrow> searchResponse outcome \<times> deleter" where
  "fetchMessages s =
     (let s1 = enforceRateLimit s;
          s2 = emit (Fetch (search_request s1)) s1
      in case server s2 of
           [] \<Rightarrow> (Pending, s2)
         | r # rs \<Rightarrow>
             (let s3 = s2\<lparr>server := rs\<rparr>
              in case r of
                   Network_Failure \<Rightarrow> (Threw Fetch_Rejected, s3)
                 | Response resp \<Rightarrow>
                     if status resp = 202 then
                       fetchMessages
                         (wait (retry_after (body resp))
                           (writeToLog (Channel_Not_Indexed (retry_after (body resp))) False s3))
                     else if status resp = 429 then
                       fetchMessages
                         (wait (retry_after (body resp))
                           (writeToLog (Rate_Limit_Reached (retry_after (body resp))) False
                             (s3\<lparr>throttledCount := throttledCount s3 + 1,
                                 throttledTotalTime :=
                                   throttledTotalTime s3 + retry_after (body resp)\<rparr>)))
                     else if \<not> ok resp then (Threw (Api_Status (status resp)), s3)
                     else (Returned (body resp), s3)))"
  by pat_completeness auto
termination
  by (relation "measure (\<lambda>s. length (server s))") auto

text \<open>\<open>deleteMessage\<close>.\<close>

function deleteMessage :: "string \<Rightarrow> deleter \<Rightarrow> unit outcome \<times> deleter" where
  "deleteMessage messageId s =
     (let s1 = enforceRateLimit s;
          s2 = emit (Fetch (delete_request messageId s1)) s1
      in case server s2 of
           [] \<Rightarrow> (Pending, s2)
         | r # rs \<Rightarrow>
             (let s3 = s2\<lparr>server := rs\<rparr>
              in case r of
                   Network_Failure \<Rightarrow> (Threw Fetch_Rejected, s3)
                 | Response resp \<Rightarrow>
                     if status resp = 429 then
                       deleteMessage messageId
                         (wait (retry_after (body resp))
                           (writeToLog (Rate_Limit_On_Deletion (retry_after (body resp))) False
                             (s3\<lparr>throttledCount := throttledCount s3 + 1,
                                 throttledTotalTime :=
                                   throttledTotalTime s3 + retry_after (body resp)\<rparr>)))
                     else if \<not> ok resp then
                       (Threw (Delete_Failed messageId (status resp)), s3)
                     else
                       (Returned (),
                        writeToLog (Successfully_Deleted messageId) False
                          (s3\<lparr>beforeMessageId := Some messageId\<rparr>))))"
  by pat_completeness auto
termination
  by (relation "measure (\<lambda>(m, s). length (server s))") auto

declare fetchMessages.simps [simp del] deleteMessage.simps [simp del]

text \<open>Every call that settles has used up at least one reply of the server.\<close>

lemma fetchMessages_server:
  "fetchMessages s = (r, s') \<Longrightarrow>
     length (server s') \<le> length (server s) \<and>
     (r \<noteq> Pending \<longrightarrow> length (server s') < length (server s))"
proof (induction s arbitrary: r s' rule: fetchMessages.induct)
  case (1 s)
  show ?case
  proof (cases "server s")
    case Nil
    with "1.prems" show ?thesis
      by (auto simp: fetchMessages.simps [of s] Let_def)
  next
    case (Cons x rs)
    show ?thesis
    proof (cases x)
      case Network_Failure
      with Cons "1.prems" show ?thesis
        by (auto simp: fetchMessages.simps [of s] Let_def)
    next
      case (Response resp)
      with Cons "1.prems" "1.IH" show ?thesis
        by (fastforce simp: fetchMessages.simps [of s] Let_def split: if_splits)
    qed
  qed
qed

lemma deleteMessage_server:
  "deleteMessage m s = (r, s') \<Longrightarrow> length (server s') \<le> length (server s)"
proof (induction m s arbitrary: r s' rule: deleteMessage.induct)
  case (1 m s)
  show ?case
  proof (cases "server s")
    case Nil
    with "1.prems" show ?thesis
      by (auto simp: deleteMessage.simps [of m s] Let_def)
  next
    case (Cons x rs)
    show ?thesis
    proof (cases x)
      case Network_Failure
      with Cons "1.prems" show ?thesis
        by (auto simp: deleteMessage.simps [of m s] Let_def)
    next
      case (Response resp)
      with Cons "1.prems" "1.IH" show ?thesis
        by (fastforce simp: deleteMessage.simps [of m s] Let_def split: if_splits)
    qed
  qed
qed

text \<open>
  The body of the inner \<open>for\<close> loop of \<open>deleteMessages\<close> (lines 235 to 253): the two
  filters, the progress line, and the \<open>try\<close>/\<open>catch\<close> around backup and deletion. The
  \<open>catch\<close> takes every error, so the body itself never throws.
\<close>

definition selected :: "string option \<Rightarrow> message \<Rightarrow> bool" where
  "selected a m = (msg_type m \<noteq> 3 \<and> Some (author_id (author m)) = a \<and> hit m)"

definition process_message :: "message \<Rightarrow> deleter \<Rightarrow> unit outcome \<times> deleter" where
  "process_message m s =
     (if msg_type m = 3 then (Returned (), s)
      else if Some (author_id (author m)) = authorId s \<and> hit m then
        (let s1 = writeToLog (Progress (delCount s + 1) (grandTotal s) (msg_id m)) False s;
             s2 = saveMessageContent m s1
         in case deleteMessage (msg_id m) s2 of
              (Returned u, s3) \<Rightarrow>
                (Returned (), wait delayDelete (s3\<lparr>delCount := delCount s3 + 1\<rparr>))
            | (Threw e, s3) \<Rightarrow>
                (Returned (),
                 (writeToLog (Error_Deleting (msg_id m) e) True s3)
                   \<lparr>failCount := failCount s3 + 1\<rparr>)
            | (Pending, s3) \<Rightarrow> (Pending, s3))
      else (Returned (), s))"

text \<open>The inner loop over a group and the outer loop over the groups of a page.\<close>

fun process_group :: "message list \<Rightarrow> deleter \<Rightarrow> unit outcome \<times> deleter" where
  "process_group [] s = (Returned (), s)"
| "process_group (m # ms) s =
     (case process_message m s of
        (Returned u, s1) \<Rightarrow> process_group ms s1
      | (r, s1) \<Rightarrow> (r, s1))"

fun process_page :: "message list list \<Rightarrow> deleter \<Rightarrow> unit outcome \<times> deleter" where
  "process_page [] s = (Returned (), s)"
| "process_page (g # gs) s =
     (case process_group g s of
        (Returned u, s1) \<Rightarrow> process_page gs s1
      | (r, s1) \<Rightarrow> (r, s1))"

lemma process_message_server:
  "process_message m s = (r, s') \<Longrightarrow> length (server s') \<le> length (server s)"
  by (auto simp: process_message_def Let_def saveMessageContent_def
      split: if_splits prod.splits outcome.splits dest!: deleteMessage_server)

lemma process_group_server:
  "process_group ms s = (r, s') \<Longrightarrow> length (server s') \<le> length (server s)"
proof (induction ms arbitrary: s)
  case Nil
  then show ?case by simp
next
  case (Cons m ms)
  then show ?case
    by (fastforce split: prod.splits outcome.splits dest: process_message_server)
qed

lemma process_page_server:
  "process_page gs s = (r, s') \<Longrightarrow> length (server s') \<le> length (server s)"
proof (induction gs arbitrary: s)
  case Nil
  then show ?case by simp
next
  case (Cons g gs)
  then show ?case
    by (fastforce split: prod.splits outcome.splits dest: process_group_server)
qed

text \<open>
  The \<open>while (true)\<close> loop of \<open>deleteMessages\<close> (lines 223 to 260). Every iteration
  starts with a search, which takes a reply, so the loop is a recursion on the replies
  still to come; when they are used up the outcome is \<open>Pending\<close>.
\<close>

function main_loop :: "deleter \<Rightarrow> unit outcome \<times> deleter" where
  "main_loop s =
     (case fetchMessages s of
        (Pending, s1) \<Rightarrow> (Pending, s1)
      | (Threw e, s1) \<Rightarrow> (Threw e, s1)
      | (Returned result, s1) \<Rightarrow>
          (let s2 = (if grandTotal s1 = 0
                     then writeToLog (Total_Messages_Found (total_results result)) False
                            (s1\<lparr>grandTotal := total_results result\<rparr>)
                     else s1)
           in if total_results result = 0 then (Returned (), s2)
              else (case process_page (messages result) s2 of
                      (Returned u, s3) \<Rightarrow>
                        (let s4 = wait delaySearch s3
                         in if int (delCount s4) \<ge> grandTotal s4 then (Returned (), s4)
                            else main_loop s4)
                    | (r, s3) \<Rightarrow> (r, s3))))"
  by pat_completeness auto
termination
proof (relation "measure (\<lambda>s. length (server s))")
  show "wf (measure (\<lambda>s. length (server s)))" by simp
next
  fix s x1 s1 result s2 y s3 u s4
  assume f: "(x1, s1) = fetchMessages s" and r: "x1 = Returned result"
    and s2: "s2 = (if grandTotal s1 = 0
               then writeToLog (Total_Messages_Found (total_results result)) False
                      (s1\<lparr>grandTotal := total_results result\<rparr>)
               else s1)"
    and p: "(y, s3) = process_page (messages result) s2" and s4: "s4 = wait delaySearch s3"
  from f r have "length (server s1) < length (server s)"
    using fetchMessages_server [of s x1 s1] by simp
  moreover from s2 have "server s2 = server s1" by simp
  moreover from p have "length (server s3) \<le> length (server s2)"
    using process_page_server [of "messages result" s2 y s3] by simp
  ultimately show "(s4, s) \<in> measure (\<lambda>s. length (server s))"
    using s4 by simp
qed

declare main_loop.simps [simp del]

definition printSummary :: "deleter \<Rightarrow> deleter" where
  "printSummary s =
     writeToLog
       (Summary (now s) (now s - startTime s) (throttledCount s) (throttledTotalTime s)
          (delCount s) (failCount s)) False s"

definition deleteMessages :: "deleter \<Rightarrow> unit outcome \<times> deleter" where
  "deleteMessages s =
     (case main_loop (writeToLog (Starting_Deletion (startTime s)) False s) of
        (Returned u, s1) \<Rightarrow> (Returned (), printSummary s1)
      | (Threw e, s1) \<Rightarrow>
          (Threw e, printSummary (writeToLog (Error_During_Processing e) True s1))
      | (Pending, s1) \<Rightarrow> (Pending, s1))"

text \<open>
  The constructor: the fields, the initial \<open>stats\<close>, the header of the operation log and
  the header of the backup file. \<open>t\<close> is the clock at the start and \<open>replies\<close> are the
  replies the server will give.
\<close>

definition new_deleter ::
  "string option \<Rightarrow> string option \<Rightarrow> string option \<Rightarrow> string option \<Rightarrow> int \<Rightarrow> reply list
    \<Rightarrow> deleter" where
  "new_deleter token aid cid bid t replies =
     (let s0 = \<lparr>authToken = token, authorId = aid, channelId = cid, beforeMessageId = bid,
                lastApiCall = 0, delCount = 0, failCount = 0, throttledCount = 0,
                throttledTotalTime = 0, grandTotal = 0, startTime = t, now = t,
                server = replies, trace = []\<rparr>;
          s1 = writeToLog Session_Start False s0;
          s2 = writeToLog (Header_Date_Time t) False s1;
          s3 = writeToLog (Header_Channel cid) False s2;
          s4 = writeToLog (Header_Author aid) False s3;
          s5 = (case truthy bid of
                  Some b \<Rightarrow> writeToLog (Header_Before b) False s4
                | None \<Rightarrow> s4);
          s6 = writeToLog Header_Rule False s5
      in emit (Backup_Header cid aid) s6)"

text \<open>
  The script (lines 291 to 310): \<open>run\<close> builds the deleter from the environment and
  awaits \<open>deleteMessages\<close>; the \<open>catch\<close> callback of the last statement prints the error
  with \<open>console.error\<close> and returns. The result is the exit status of the process, if
  it ends, and the final state. The script never sets \<open>process.exitCode\<close> and never
  calls \<open>process.exit\<close> with a code, and the rejection of \<open>run()\<close> is handled by the
  callback, so the process ends with Node's default status 0 on both paths.
\<close>

definition run :: "(string \<rightharpoonup> string) \<Rightarrow> int \<Rightarrow> reply list \<Rightarrow> nat option \<times> deleter" where
  "run env t replies =
     (let deleter = new_deleter (env ''DISCORD_AUTH_TOKEN'') (env ''DISCORD_AUTHOR_ID'')
                      (env ''DISCORD_CHANNEL_ID'') (env ''DISCORD_BEFORE_MESSAGE_ID'')
                      t replies
      in case deleteMessages deleter of
           (Returned u, s) \<Rightarrow> (Some 0, s)
         | (Threw e, s) \<Rightarrow> (Some 0, emit (Fatal_Error e) s)
         | (Pending, s) \<Rightarrow> (None, s))"

section \<open>Reading a trace\<close>

text \<open>The effects a call added to the trace.\<close>

definition new_events :: "deleter \<Rightarrow> deleter \<Rightarrow> event list" where
  "new_events s s' = drop (length (trace s)) (trace s')"

text \<open>The HTTP calls of a trace, the backup records, and the IDs of the delete calls.\<close>

fun requests :: "event list \<Rightarrow> request list" where
  "requests [] = []"
| "requests (Fetch q # es) = q # requests es"
| "requests (e # es) = requests es"

fun backups :: "event list \<Rightarrow> backupRecord list" where
  "backups [] = []"
| "backups (Backup b # es) = b # backups es"
| "backups (e # es) = backups es"

fun delete_calls :: "event list \<Rightarrow> string list" where
  "delete_calls [] = []"
| "delete_calls (Fetch (Delete_Request a c m) # es) = m # delete_calls es"
| "delete_calls (e # es) = delete_calls es"

section \<open>Frame lemmas of the elementary steps\<close>

lemma emit_fields [simp]:
  "authToken (emit e s) = authToken s"
  "authorId (emit e s) = authorId s"
  "channelId (emit e s) = channelId s"
  "beforeMessageId (emit e s) = beforeMessageId s"
  "lastApiCall (emit e s) = lastApiCall s"
  "delCount (emit e s) = delCount s"
  "failCount (emit e s) = failCount s"
  "throttledCount (emit e s) = throttledCount s"
  "throttledTotalTime (emit e s) = throttledTotalTime s"
  "grandTotal (emit e s) = grandTotal s"
  "startTime (emit e s) = startTime s"
  "now (emit e s) = now s"
  by (simp_all add: emit_def)
lemma writeToLog_fields [simp]:
  "authToken (writeToLog l b s) = authToken s"
  "authorId (writeToLog l b s) = authorId s"
  "channelId (writeToLog l b s) = channelId s"
  "beforeMessageId (writeToLog l b s) = beforeMessageId s"
  "lastApiCall (writeToLog l b s) = lastApiCall s"
  "delCount (writeToLog l b s) = delCount s"
  "failCount (writeToLog l b s) = failCount s"
  "throttledCount (writeToLog l b s) = throttledCount s"
  "throttledTotalTime (writeToLog l b s) = throttledTotalTime s"
  "grandTotal (writeToLog l b s) = grandTotal s"
  "startTime (writeToLog l b s) = startTime s"
  "now (writeToLog l b s) = now s"
  by (simp_all add: writeToLog_def)
lemma wait_fields [simp]:
  "authToken (wait ms s) = authToken s"
  "authorId (wait ms s) = authorId s"
  "channelId (wait ms s) = channelId s"
  "beforeMessageId (wait ms s) = beforeMessageId s"
  "lastApiCall (wait ms s) = lastApiCall s"
  "delCount (wait ms s) = delCount s"
  "failCount (wait ms s) = failCount s"
  "throttledCount (wait ms s) = throttledCount s"
  "throttledTotalTime (wait ms s) = throttledTotalTime s"
  "grandTotal (wait ms s) = grandTotal s"
  "startTime (wait ms s) = startTime s"
  by (simp_all add: wait_def)
lemma saveMessageContent_fields [simp]:
  "authToken (saveMessageContent m s) = authToken s"
  "authorId (saveMessageContent m s) = authorId s"
  "channelId (saveMessageContent m s) = channelId s"
  "beforeMessageId (saveMessageContent m s) = beforeMessageId s"
  "lastApiCall (saveMessageContent m s) = lastApiCall s"
  "delCount (saveMessageContent m s) = delCount s"
  "failCount (saveMessageContent m s) = failCount s"
  "throttledCount (saveMessageContent m s) = throttledCount s"
  "throttledTotalTime (saveMessageContent m s) = throttledTotalTime s"
  "grandTotal (saveMessageContent m s) = grandTotal s"
  "startTime (saveMessageContent m s) = startTime s"
  "now (saveMessageContent m s) = now s"
  "server (saveMessageContent m s) = server s"
  by (simp_all add: saveMessageContent_def)
lemma enforceRateLimit_fields [simp]:
  "authToken (enforceRateLimit s) = authToken s"
  "authorId (enforceRateLimit s) = authorId s"
  "channelId (enforceRateLimit s) = channelId s"
  "beforeMessageId (enforceRateLimit s) = beforeMessageId s"
  "delCount (enforceRateLimit s) = delCount s"
  "failCount (enforceRateLimit s) = failCount s"
  "throttledCount (enforceRateLimit s) = throttledCount s"
  "throttledTotalTime (enforceRateLimit s) = throttledTotalTime s"
  "grandTotal (enforceRateLimit s) = grandTotal s"
  "startTime (enforceRateLimit s) = startTime s"
  by (simp_all add: enforceRateLimit_def Let_def)

lemma search_request_steps [simp]:
  "search_request (emit e s) = search_request s"
  "search_request (writeToLog l b s) = search_request s"
  "search_request (wait ms s) = search_request s"
  "search_request (enforceRateLimit s) = search_request s"
  "search_request (s\<lparr>server := rs\<rparr>) = search_request s"
  "search_request (s\<lparr>throttledCount := c\<rparr>) = search_request s"
  "search_request (s\<lparr>throttledTotalTime := tt\<rparr>) = search_request s"
  by (simp_all add: search_request_def)

lemma delete_request_steps [simp]:
  "delete_request m (emit e s) = delete_request m s"
  "delete_request m (writeToLog l b s) = delete_request m s"
  "delete_request m (wait ms s) = delete_request m s"
  "delete_request m (enforceRateLimit s) = delete_request m s"
  "delete_request m (s\<lparr>server := rs\<rparr>) = delete_request m s"
  "delete_request m (s\<lparr>throttledCount := c\<rparr>) = delete_request m s"
  "delete_request m (s\<lparr>throttledTotalTime := tt\<rparr>) = delete_request m s"
  "delete_request m (s\<lparr>beforeMessageId := bid\<rparr>) = delete_request m s"
  by (simp_all add: delete_request_def)

text \<open>The state when the reply to a call has arrived, and the state after a 429.\<close>

definition sent :: "request \<Rightarrow> deleter \<Rightarrow> deleter" where
  "sent q s = (emit (Fetch q) (enforceRateLimit s))\<lparr>server := tl (server s)\<rparr>"

definition throttled :: "logLine \<Rightarrow> int \<Rightarrow> deleter \<Rightarrow> deleter" where
  "throttled l R s =
     wait R (writeToLog l False
       (s\<lparr>throttledCount := throttledCount s + 1,
          throttledTotalTime := throttledTotalTime s + R\<rparr>))"

lemma fetchMessages_unfold:
  "fetchMessages s =
     (case server s of
        [] \<Rightarrow> (Pending, emit (Fetch (search_request s)) (enforceRateLimit s))
      | Network_Failure # rs \<Rightarrow> (Threw Fetch_Rejected, sent (search_request s) s)
      | Response resp # rs \<Rightarrow>
          if status resp = 202 then
            fetchMessages
              (wait (retry_after (body resp))
                (writeToLog (Channel_Not_Indexed (retry_after (body resp))) False
                  (sent (search_request s) s)))
          else if status resp = 429 then
            fetchMessages
              (throttled (Rate_Limit_Reached (retry_after (body resp)))
                 (retry_after (body resp)) (sent (search_request s) s))
          else if \<not> ok resp then (Threw (Api_Status (status resp)), sent (search_request s) s)
          else (Returned (body resp), sent (search_request s) s))"
  by (subst fetchMessages.simps)
    (simp add: Let_def sent_def throttled_def split: list.split reply.split)

lemma deleteMessage_unfold:
  "deleteMessage m s =
     (case server s of
        [] \<Rightarrow> (Pending, emit (Fetch (delete_request m s)) (enforceRateLimit s))
      | Network_Failure # rs \<Rightarrow> (Threw Fetch_Rejected, sent (delete_request m s) s)
      | Response resp # rs \<Rightarrow>
          if status resp = 429 then
            deleteMessage m
              (throttled (Rate_Limit_On_Deletion (retry_after (body resp)))
                 (retry_after (body resp)) (sent (delete_request m s) s))
          else if \<not> ok resp then
            (Threw (Delete_Failed m (status resp)), sent (delete_request m s) s)
          else
            (Returned (),
             writeToLog (Successfully_Deleted m) False
               ((sent (delete_request m s) s)\<lparr>beforeMessageId := Some m\<rparr>)))"
  by (subst deleteMessage.simps)
    (simp add: Let_def sent_def throttled_def split: list.split reply.split)

section \<open>One step of the two API methods\<close>

lemma trace_steps [simp]:
  "trace (emit e s) = trace s @ [e]"
  "trace (writeToLog l b s) = trace s @ [if b then Error_Log l else Log l]"
  "trace (wait ms s) = trace s @ [Wait ms]"
  "trace (saveMessageContent m s) = trace s @ [Backup (backup_record m)]"
  "now (wait ms s) = now s + timer_delay ms"
  by (simp_all add: emit_def writeToLog_def wait_def saveMessageContent_def)

lemma sent_fields [simp]:
  "authToken (sent q s) = authToken s"
  "authorId (sent q s) = authorId s"
  "channelId (sent q s) = channelId s"
  "beforeMessageId (sent q s) = beforeMessageId s"
  "delCount (sent q s) = delCount s"
  "failCount (sent q s) = failCount s"
  "throttledCount (sent q s) = throttledCount s"
  "throttledTotalTime (sent q s) = throttledTotalTime s"
  "grandTotal (sent q s) = grandTotal s"
  "startTime (sent q s) = startTime s"
  "server (sent q s) = tl (server s)"
  "trace (sent q s) = trace (enforceRateLimit s) @ [Fetch q]"
  "now (sent q s) = now (enforceRateLimit s)"
  by (simp_all add: sent_def)

lemma throttled_fields [simp]:
  "authToken (throttled l R s) = authToken s"
  "authorId (throttled l R s) = authorId s"
  "channelId (throttled l R s) = channelId s"
  "beforeMessageId (throttled l R s) = beforeMessageId s"
  "lastApiCall (throttled l R s) = lastApiCall s"
  "delCount (throttled l R s) = delCount s"
  "failCount (throttled l R s) = failCount s"
  "grandTotal (throttled l R s) = grandTotal s"
  "startTime (throttled l R s) = startTime s"
  "server (throttled l R s) = server s"
  "throttledCount (throttled l R s) = throttledCount s + 1"
  "throttledTotalTime (throttled l R s) = throttledTotalTime s + R"
  "trace (throttled l R s) = trace s @ [Log l, Wait R]"
  "now (throttled l R s) = now s + timer_delay R"
  by (simp_all add: throttled_def wait_def writeToLog_def emit_def)

lemma request_sent [simp]:
  "search_request (sent q s) = search_request s"
  "search_request (throttled l R s) = search_request s"
  "delete_request m (sent q s) = delete_request m s"
  "delete_request m (throttled l R s) = delete_request m s"
  by (simp_all add: search_request_def delete_request_def)

text \<open>
  Induction along the replies of the server, with one case for each branch of
  \<open>fetchMessages\<close> and of \<open>deleteMessage\<close>.
\<close>

lemma fetchMessages_induct [case_names Pending Failure Retry202 Retry429 Final]:
  assumes "\<And>s. server s = [] \<Longrightarrow> P s"
    and "\<And>s rs. server s = Network_Failure # rs \<Longrightarrow> P s"
    and "\<And>s resp rs. server s = Response resp # rs \<Longrightarrow> status resp = 202 \<Longrightarrow>
           P (wait (retry_after (body resp))
               (writeToLog (Channel_Not_Indexed (retry_after (body resp))) False
                 (sent (search_request s) s))) \<Longrightarrow> P s"
    and "\<And>s resp rs. server s = Response resp # rs \<Longrightarrow> status resp = 429 \<Longrightarrow>
           P (throttled (Rate_Limit_Reached (retry_after (body resp)))
               (retry_after (body resp)) (sent (search_request s) s)) \<Longrightarrow> P s"
    and "\<And>s resp rs. server s = Response resp # rs \<Longrightarrow> status resp \<noteq> 202 \<Longrightarrow>
           status resp \<noteq> 429 \<Longrightarrow> P s"
  shows "P s"
proof (induction "length (server s)" arbitrary: s rule: less_induct)
  case less
  show ?case
  proof (cases "server s")
    case Nil
    then show ?thesis by (rule assms(1))
  next
    case (Cons x rs)
    show ?thesis
    proof (cases x)
      case Network_Failure
      with Cons show ?thesis by (simp add: assms(2))
    next
      case (Response resp)
      with Cons have srv: "server s = Response resp # rs" by simp
      consider "status resp = 202" | "status resp = 429"
        | "status resp \<noteq> 202" "status resp \<noteq> 429" by blast
      then show ?thesis
      proof cases
        case 1
        show ?thesis
          by (rule assms(3) [OF srv 1], rule less) (simp add: srv)
      next
        case 2
        show ?thesis
          by (rule assms(4) [OF srv 2], rule less) (simp add: srv)
      next
        case 3
        then show ?thesis by (rule assms(5) [OF srv])
      qed
    qed
  qed
qed

lemma deleteMessage_induct [case_names Pending Failure Retry429 Final]:
  assumes "\<And>s. server s = [] \<Longrightarrow> P s"
    and "\<And>s rs. server s = Network_Failure # rs \<Longrightarrow> P s"
    and "\<And>s resp rs. server s = Response resp # rs \<Longrightarrow> status resp = 429 \<Longrightarrow>
           P (throttled (Rate_Limit_On_Deletion (retry_after (body resp)))
               (retry_after (body resp)) (sent (delete_request m s) s)) \<Longrightarrow> P s"
    and "\<And>s resp rs. server s = Response resp # rs \<Longrightarrow> status resp \<noteq> 429 \<Longrightarrow> P s"
  shows "P s"
proof (induction "length (server s)" arbitrary: s rule: less_induct)
  case less
  show ?case
  proof (cases "server s")
    case Nil
    then show ?thesis by (rule assms(1))
  next
    case (Cons x rs)
    show ?thesis
    proof (cases x)
      case Network_Failure
      with Cons show ?thesis by (simp add: assms(2))
    next
      case (Response resp)
      with Cons have srv: "server s = Response resp # rs" by simp
      show ?thesis
      proof (cases "status resp = 429")
        case True
        show ?thesis
          by (rule assms(3) [OF srv True], rule less) (simp add: srv)
      next
        case False
        then show ?thesis by (rule assms(4) [OF srv])
      qed
    qed
  qed
qed

lemma fetchMessages_frame:
  "fetchMessages s = (r, s') \<Longrightarrow>
     authToken s' = authToken s \<and> authorId s' = authorId s \<and> channelId s' = channelId s \<and>
     beforeMessageId s' = beforeMessageId s \<and> delCount s' = delCount s \<and>
     failCount s' = failCount s \<and> grandTotal s' = grandTotal s \<and> startTime s' = startTime s"
proof (induction s arbitrary: r s' rule: fetchMessages_induct)
  case (Pending s)
  then show ?case by (auto simp: fetchMessages_unfold [of s])
next
  case (Failure s rs)
  then show ?case by (auto simp: fetchMessages_unfold [of s])
next
  case (Retry202 s resp rs)
  from Retry202.prems Retry202.hyps show ?case
    by (simp add: fetchMessages_unfold [of s]) (drule Retry202.IH, simp)
next
  case (Retry429 s resp rs)
  from Retry429.prems Retry429.hyps show ?case
    by (simp add: fetchMessages_unfold [of s]) (drule Retry429.IH, simp)
next
  case (Final s resp rs)
  then show ?case by (auto simp: fetchMessages_unfold [of s] split: if_splits)
qed

lemma deleteMessage_frame:
  "deleteMessage m s = (r, s') \<Longrightarrow>
     authToken s' = authToken s \<and> authorId s' = authorId s \<and> channelId s' = channelId s \<and>
     delCount s' = delCount s \<and> failCount s' = failCount s \<and>
     grandTotal s' = grandTotal s \<and> startTime s' = startTime s \<and>
     beforeMessageId s' = (if r = Returned () then Some m else beforeMessageId s)"
proof (induction s arbitrary: r s' rule: deleteMessage_induct [where m = m])
  case (Pending s)
  then show ?case by (auto simp: deleteMessage_unfold [of m s])
next
  case (Failure s rs)
  then show ?case by (auto simp: deleteMessage_unfold [of m s])
next
  case (Retry429 s resp rs)
  from Retry429.prems Retry429.hyps show ?case
    by (simp add: deleteMessage_unfold [of m s]) (drule Retry429.IH, simp)
next
  case (Final s resp rs)
  then show ?case by (auto simp: deleteMessage_unfold [of m s] split: if_splits)
qed

section \<open>What a call adds to the trace\<close>

text \<open>\<open>extends P s s'\<close>: the trace of \<open>s'\<close> is the trace of \<open>s\<close> followed by events that satisfy \<open>P\<close>.\<close>

definition extends :: "(event \<Rightarrow> bool) \<Rightarrow> deleter \<Rightarrow> deleter \<Rightarrow> bool" where
  "extends P s s' = (\<exists>evs. trace s' = trace s @ evs \<and> list_all P evs)"

lemma extends_trans: "extends P s s1 \<Longrightarrow> extends P s1 s2 \<Longrightarrow> extends P s s2"
  by (auto simp: extends_def)

lemma extends_step: "trace s' = trace s @ evs \<Longrightarrow> list_all P evs \<Longrightarrow> extends P s s'"
  by (auto simp: extends_def)

lemma extends_new_events:
  "extends P s s' \<Longrightarrow> trace s' = trace s @ new_events s s' \<and> list_all P (new_events s s')"
  by (auto simp: extends_def new_events_def)

lemma new_events_append: "trace s' = trace s @ evs \<Longrightarrow> new_events s s' = evs"
  by (simp add: new_events_def)

lemma enforceRateLimit_trace:
  "trace (enforceRateLimit s) =
     trace s @ (if now s - lastApiCall s < rateLimit
                then [Wait (rateLimit - (now s - lastApiCall s))] else [])"
  by (simp add: enforceRateLimit_def Let_def)

lemma extends_sent:
  "(\<And>n. P (Wait n)) \<Longrightarrow> P (Fetch q) \<Longrightarrow> extends P s (sent q s)"
  by (simp add: extends_def enforceRateLimit_trace)

text \<open>The events of a search and of a deletion.\<close>

fun search_event :: "request \<Rightarrow> event \<Rightarrow> bool" where
  "search_event q (Fetch q') = (q' = q)"
| "search_event q (Wait n) = True"
| "search_event q (Log (Channel_Not_Indexed n)) = True"
| "search_event q (Log (Rate_Limit_Reached n)) = True"
| "search_event q e = False"

fun delete_event :: "request \<Rightarrow> string \<Rightarrow> event \<Rightarrow> bool" where
  "delete_event q m (Fetch q') = (q' = q)"
| "delete_event q m (Wait n) = True"
| "delete_event q m (Log (Rate_Limit_On_Deletion n)) = True"
| "delete_event q m (Log (Successfully_Deleted m')) = (m' = m)"
| "delete_event q m e = False"

lemma fetchMessages_extends:
  "fetchMessages s = (r, s') \<Longrightarrow> extends (search_event (search_request s)) s s'"
proof (induction s arbitrary: r s' rule: fetchMessages_induct)
  case (Pending s)
  then show ?case
    by (auto simp: fetchMessages_unfold [of s] enforceRateLimit_trace intro!: extends_step)
next
  case (Failure s rs)
  then show ?case
    by (auto simp: fetchMessages_unfold [of s] intro!: extends_sent)
next
  case (Retry202 s resp rs)
  let ?q = "search_request s" and ?R = "retry_after (body resp)"
  let ?s1 = "wait ?R (writeToLog (Channel_Not_Indexed ?R) False (sent ?q s))"
  from Retry202.prems Retry202.hyps have "fetchMessages ?s1 = (r, s')"
    by (simp add: fetchMessages_unfold [of s])
  then have "extends (search_event ?q) ?s1 s'"
    using Retry202.IH by simp
  moreover have "extends (search_event ?q) (sent ?q s) ?s1"
    by (rule extends_step [where evs = "[Log (Channel_Not_Indexed ?R), Wait ?R]"]) simp_all
  moreover have "extends (search_event ?q) s (sent ?q s)"
    by (rule extends_sent) simp_all
  ultimately show ?case by (blast intro: extends_trans)
next
  case (Retry429 s resp rs)
  let ?q = "search_request s" and ?R = "retry_after (body resp)"
  let ?s1 = "throttled (Rate_Limit_Reached ?R) ?R (sent ?q s)"
  from Retry429.prems Retry429.hyps have "fetchMessages ?s1 = (r, s')"
    by (simp add: fetchMessages_unfold [of s])
  then have "extends (search_event ?q) ?s1 s'"
    using Retry429.IH by simp
  moreover have "extends (search_event ?q) (sent ?q s) ?s1"
    by (rule extends_step [where evs = "[Log (Rate_Limit_Reached ?R), Wait ?R]"]) simp_all
  moreover have "extends (search_event ?q) s (sent ?q s)"
    by (rule extends_sent) simp_all
  ultimately show ?case by (blast intro: extends_trans)
next
  case (Final s resp rs)
  then show ?case
    by (auto simp: fetchMessages_unfold [of s] split: if_splits intro!: extends_sent)
qed

lemma deleteMessage_extends:
  "deleteMessage m s = (r, s') \<Longrightarrow> extends (delete_event (delete_request m s) m) s s'"
proof (induction s arbitrary: r s' rule: deleteMessage_induct [where m = m])
  case (Pending s)
  then show ?case
    by (auto simp: deleteMessage_unfold [of m s] enforceRateLimit_trace intro!: extends_step)
next
  case (Failure s rs)
  then show ?case
    by (auto simp: deleteMessage_unfold [of m s] intro!: extends_sent)
next
  case (Retry429 s resp rs)
  let ?q = "delete_request m s" and ?R = "retry_after (body resp)"
  let ?s1 = "throttled (Rate_Limit_On_Deletion ?R) ?R (sent ?q s)"
  from Retry429.prems Retry429.hyps have "deleteMessage m ?s1 = (r, s')"
    by (simp add: deleteMessage_unfold [of m s])
  then have "extends (delete_event ?q m) ?s1 s'"
    using Retry429.IH by simp
  moreover have "extends (delete_event ?q m) (sent ?q s) ?s1"
    by (rule extends_step [where evs = "[Log (Rate_Limit_On_Deletion ?R), Wait ?R]"]) simp_all
  moreover have "extends (delete_event ?q m) s (sent ?q s)"
    by (rule extends_sent) simp_all
  ultimately show ?case by (blast intro: extends_trans)
next
  case (Final s resp rs)
  let ?q = "delete_request m s"
  have sent: "extends (delete_event ?q m) s (sent ?q s)"
    by (rule extends_sent) simp_all
  show ?case
  proof (cases "ok resp")
    case True
    with Final have s': "s' = writeToLog (Successfully_Deleted m) False
        ((sent ?q s)\<lparr>beforeMessageId := Some m\<rparr>)"
      by (simp add: deleteMessage_unfold [of m s])
    have "extends (delete_event ?q m) (sent ?q s) s'"
      unfolding s' by (rule extends_step [where evs = "[Log (Successfully_Deleted m)]"]) simp_all
    with sent show ?thesis by (blast intro: extends_trans)
  next
    case False
    with Final have "s' = sent ?q s"
      by (simp add: deleteMessage_unfold [of m s])
    with sent show ?thesis by simp
  qed
qed

lemma requests_append [simp]: "requests (xs @ ys) = requests xs @ requests ys"
  by (induction xs rule: requests.induct) simp_all

lemma backups_append [simp]: "backups (xs @ ys) = backups xs @ backups ys"
  by (induction xs rule: backups.induct) simp_all

lemma delete_calls_append [simp]: "delete_calls (xs @ ys) = delete_calls xs @ delete_calls ys"
  by (induction xs rule: delete_calls.induct) simp_all

lemma search_events:
  "list_all (search_event q) evs \<Longrightarrow>
     backups evs = [] \<and> set (requests evs) \<subseteq> {q} \<and>
     (delete_calls evs = [] \<or> (\<exists>a c m. q = Delete_Request a c m))"
proof (induction evs)
  case Nil
  then show ?case by simp
next
  case (Cons e evs)
  then show ?case
    by (cases "(q, e)" rule: search_event.cases; cases q) auto
qed

lemma delete_events:
  "list_all (delete_event q m) evs \<Longrightarrow> backups evs = [] \<and> set (requests evs) \<subseteq> {q}"
proof (induction evs)
  case Nil
  then show ?case by simp
next
  case (Cons e evs)
  then show ?case
    by (cases "(q, m, e)" rule: delete_event.cases) auto
qed

lemma delete_calls_requests:
  "set (requests evs) \<subseteq> {Delete_Request a c m} \<Longrightarrow>
     set (delete_calls evs) \<subseteq> {m} \<and> (requests evs \<noteq> [] \<longrightarrow> delete_calls evs \<noteq> [])"
  by (induction evs rule: delete_calls.induct) auto

lemma search_calls_requests:
  "set (requests evs) \<subseteq> {Search_Request a c u x} \<Longrightarrow> delete_calls evs = []"
  by (induction evs rule: delete_calls.induct) auto

text \<open>Every call of the two API methods issues its request at least once.\<close>

lemma fetchMessages_first:
  "fetchMessages s = (r, s') \<Longrightarrow>
     \<exists>evs. trace s' = trace (enforceRateLimit s) @ Fetch (search_request s) # evs"
proof (cases "server s")
  case Nil
  assume "fetchMessages s = (r, s')"
  with Nil show ?thesis by (auto simp: fetchMessages_unfold [of s])
next
  case (Cons x rs)
  assume f: "fetchMessages s = (r, s')"
  show ?thesis
  proof (cases x)
    case Network_Failure
    with Cons f show ?thesis by (auto simp: fetchMessages_unfold [of s])
  next
    case (Response resp)
    with Cons f show ?thesis
      by (auto simp: fetchMessages_unfold [of s] extends_def split: if_splits
          dest!: fetchMessages_extends)
  qed
qed

lemma deleteMessage_first:
  "deleteMessage m s = (r, s') \<Longrightarrow>
     \<exists>evs. trace s' = trace (enforceRateLimit s) @ Fetch (delete_request m s) # evs"
proof (cases "server s")
  case Nil
  assume "deleteMessage m s = (r, s')"
  with Nil show ?thesis by (auto simp: deleteMessage_unfold [of m s])
next
  case (Cons x rs)
  assume f: "deleteMessage m s = (r, s')"
  show ?thesis
  proof (cases x)
    case Network_Failure
    with Cons f show ?thesis by (auto simp: deleteMessage_unfold [of m s])
  next
    case (Response resp)
    with Cons f show ?thesis
      by (auto simp: deleteMessage_unfold [of m s] extends_def split: if_splits
          dest!: deleteMessage_extends)
  qed
qed

lemma fetchMessages_requests:
  assumes "fetchMessages s = (r, s')"
  shows "trace s' = trace s @ new_events s s'"
    and "backups (new_events s s') = []"
    and "delete_calls (new_events s s') = []"
    and "requests (new_events s s') \<noteq> []"
    and "set (requests (new_events s s')) = {search_request s}"
proof -
  from fetchMessages_extends [OF assms]
  have t: "trace s' = trace s @ new_events s s'"
    and a: "list_all (search_event (search_request s)) (new_events s s')"
    by (simp_all add: extends_new_events)
  from fetchMessages_first [OF assms] obtain evs
    where "trace s' = trace (enforceRateLimit s) @ Fetch (search_request s) # evs" by blast
  then have "\<exists>g. trace s' = trace s @ (g @ Fetch (search_request s) # evs)"
    by (simp add: enforceRateLimit_trace)
  then have n: "requests (new_events s s') \<noteq> []"
    by (auto dest!: new_events_append)
  from search_events [OF a] have b: "backups (new_events s s') = []"
    and q: "set (requests (new_events s s')) \<subseteq> {search_request s}" by simp_all
  from t show "trace s' = trace s @ new_events s s'" .
  from b show "backups (new_events s s') = []" .
  from q show "delete_calls (new_events s s') = []"
    unfolding search_request_def by (rule search_calls_requests)
  from n show "requests (new_events s s') \<noteq> []" .
  from n q show "set (requests (new_events s s')) = {search_request s}"
    by (cases "requests (new_events s s')") auto
qed

lemma deleteMessage_requests:
  assumes "deleteMessage m s = (r, s')"
  shows "trace s' = trace s @ new_events s s'"
    and "backups (new_events s s') = []"
    and "delete_calls (new_events s s') \<noteq> []"
    and "set (delete_calls (new_events s s')) = {m}"
    and "set (requests (new_events s s')) = {delete_request m s}"
proof -
  from deleteMessage_extends [OF assms]
  have t: "trace s' = trace s @ new_events s s'"
    and a: "list_all (delete_event (delete_request m s) m) (new_events s s')"
    by (simp_all add: extends_new_events)
  from deleteMessage_first [OF assms] obtain evs
    where "trace s' = trace (enforceRateLimit s) @ Fetch (delete_request m s) # evs" by blast
  then have "\<exists>g. trace s' = trace s @ (g @ Fetch (delete_request m s) # evs)"
    by (simp add: enforceRateLimit_trace)
  then have n: "requests (new_events s s') \<noteq> []"
    by (auto dest!: new_events_append)
  from delete_events [OF a] have b: "backups (new_events s s') = []"
    and q: "set (requests (new_events s s')) \<subseteq> {delete_request m s}" by simp_all
  from q have d: "set (delete_calls (new_events s s')) \<subseteq> {m}"
    "requests (new_events s s') \<noteq> [] \<longrightarrow> delete_calls (new_events s s') \<noteq> []"
    unfolding delete_request_def by (simp_all add: delete_calls_requests)
  from t show "trace s' = trace s @ new_events s s'" .
  from b show "backups (new_events s s') = []" .
  from n d show dn: "delete_calls (new_events s s') \<noteq> []" by simp
  from dn d show "set (delete_calls (new_events s s')) = {m}"
    by (cases "delete_calls (new_events s s')") auto
  from n q show "set (requests (new_events s s')) = {delete_request m s}"
    by (cases "requests (new_events s s')") auto
qed

section \<open>The body of the loop over the messages\<close>

text \<open>The state in which \<open>deleteMessage\<close> is called for a message.\<close>

definition announced :: "message \<Rightarrow> deleter \<Rightarrow> deleter" where
  "announced m s =
     saveMessageContent m
       (writeToLog (Progress (delCount s + 1) (grandTotal s) (msg_id m)) False s)"

lemma process_message_skip:
  "\<not> selected (authorId s) m \<Longrightarrow> process_message m s = (Returned (), s)"
  by (auto simp: process_message_def selected_def)

lemma process_message_selected:
  "selected (authorId s) m \<Longrightarrow>
     process_message m s =
       (case deleteMessage (msg_id m) (announced m s) of
          (Returned u, s3) \<Rightarrow> (Returned (), wait delayDelete (s3\<lparr>delCount := delCount s3 + 1\<rparr>))
        | (Threw e, s3) \<Rightarrow>
            (Returned (),
             (writeToLog (Error_Deleting (msg_id m) e) True s3)\<lparr>failCount := failCount s3 + 1\<rparr>)
        | (Pending, s3) \<Rightarrow> (Pending, s3))"
  by (simp add: process_message_def selected_def announced_def Let_def)

lemma announced_trace [simp]:
  "trace (announced m s) =
     trace s @ [Log (Progress (delCount s + 1) (grandTotal s) (msg_id m)),
                Backup (backup_record m)]"
  "delete_request i (announced m s) = delete_request i s"
  by (simp_all add: announced_def delete_request_def)

lemma process_message_events:
  assumes sel: "selected (authorId s) m" and run: "process_message m s = (r, s')"
  shows "\<exists>devs end.
           trace s' = trace s @ Log (Progress (delCount s + 1) (grandTotal s) (msg_id m)) #
                        Backup (backup_record m) # devs @ end \<and>
           backups devs = [] \<and> delete_calls devs \<noteq> [] \<and> set (delete_calls devs) = {msg_id m} \<and>
           set (requests devs) = {delete_request (msg_id m) s} \<and>
           (end = [] \<or> end = [Wait delayDelete] \<or>
            (\<exists>e. end = [Error_Log (Error_Deleting (msg_id m) e)]))"
proof -
  obtain d s3 where d: "deleteMessage (msg_id m) (announced m s) = (d, s3)"
    by (cases "deleteMessage (msg_id m) (announced m s)")
  let ?devs = "new_events (announced m s) s3"
  note facts = deleteMessage_requests [OF d]
  from facts(1) have t3: "trace s3 = trace s @ Log (Progress (delCount s + 1) (grandTotal s) (msg_id m)) #
      Backup (backup_record m) # ?devs"
    by simp
  have "\<exists>end. trace s' = trace s3 @ end \<and>
      (end = [] \<or> end = [Wait delayDelete] \<or> (\<exists>e. end = [Error_Log (Error_Deleting (msg_id m) e)]))"
    using run d by (cases d) (auto simp: process_message_selected [OF sel])
  then obtain "end" where e: "trace s' = trace s3 @ end"
    "end = [] \<or> end = [Wait delayDelete] \<or> (\<exists>e. end = [Error_Log (Error_Deleting (msg_id m) e)])"
    by blast
  show ?thesis
    apply (rule exI [of _ ?devs])
    apply (rule exI [of _ "end"])
    using e t3 facts(2-5) by simp
qed

section \<open>Which messages are backed up and deleted\<close>

lemma process_message_frame:
  "process_message m s = (r, s') \<Longrightarrow>
     authToken s' = authToken s \<and> authorId s' = authorId s \<and> channelId s' = channelId s \<and>
     grandTotal s' = grandTotal s \<and> startTime s' = startTime s"
proof (cases "selected (authorId s) m")
  case False
  assume "process_message m s = (r, s')"
  with False show ?thesis by (simp add: process_message_skip)
next
  case True
  assume run: "process_message m s = (r, s')"
  obtain d s3 where d: "deleteMessage (msg_id m) (announced m s) = (d, s3)"
    by (cases "deleteMessage (msg_id m) (announced m s)")
  from deleteMessage_frame [OF d] run d show ?thesis
    by (cases d) (auto simp: process_message_selected [OF True] announced_def)
qed

text \<open>
  \<open>selects ms s r s'\<close>: going from \<open>s\<close> to \<open>s'\<close>, the backup records written are those of
  the selected messages of \<open>ms\<close>, in order (all of them if the outcome is \<open>Returned\<close>), and
  the delete calls issued are for the messages backed up.
\<close>

definition selects :: "message list \<Rightarrow> deleter \<Rightarrow> unit outcome \<Rightarrow> deleter \<Rightarrow> bool" where
  "selects ms s r s' =
     (authorId s' = authorId s \<and>
      (\<exists>evs. trace s' = trace s @ evs \<and>
         prefix (backups evs) (map backup_record (filter (selected (authorId s)) ms)) \<and>
         (r = Returned () \<longrightarrow>
            backups evs = map backup_record (filter (selected (authorId s)) ms)) \<and>
         set (delete_calls evs) = rec_id ` set (backups evs)))"

lemma selects_Nil: "selects [] s (Returned ()) s"
  by (simp add: selects_def)

lemma selects_append:
  assumes "selects xs s (Returned ()) s1" and "selects ys s1 r s'"
  shows "selects (xs @ ys) s r s'"
proof -
  from assms(1) obtain a where a: "authorId s1 = authorId s" "trace s1 = trace s @ a"
    "backups a = map backup_record (filter (selected (authorId s)) xs)"
    "set (delete_calls a) = rec_id ` set (backups a)"
    by (auto simp: selects_def)
  from assms(2) a(1) obtain b where b: "authorId s' = authorId s" "trace s' = trace s1 @ b"
    "prefix (backups b) (map backup_record (filter (selected (authorId s)) ys))"
    "r = Returned () \<longrightarrow> backups b = map backup_record (filter (selected (authorId s)) ys)"
    "set (delete_calls b) = rec_id ` set (backups b)"
    by (auto simp: selects_def)
  show ?thesis
    unfolding selects_def
  proof (intro conjI exI [of _ "a @ b"])
    show "authorId s' = authorId s" by (rule b(1))
    show "trace s' = trace s @ a @ b" using a(2) b(2) by simp
    show "prefix (backups (a @ b)) (map backup_record (filter (selected (authorId s)) (xs @ ys)))"
      using a(3) b(3) by simp
    show "r = Returned () \<longrightarrow>
        backups (a @ b) = map backup_record (filter (selected (authorId s)) (xs @ ys))"
      using a(3) b(4) by simp
    show "set (delete_calls (a @ b)) = rec_id ` set (backups (a @ b))"
      using a(4) b(5) by (simp add: image_Un)
  qed
qed

lemma selects_stop:
  assumes "selects xs s r s'" and "r \<noteq> Returned ()"
  shows "selects (xs @ ys) s r s'"
  using assms by (auto simp: selects_def intro: prefix_order.trans)

lemma rec_id_backup_record [simp]: "rec_id (backup_record m) = msg_id m"
  by (simp add: backup_record_def)

lemma process_message_selects:
  assumes "process_message m s = (r, s')"
  shows "selects [m] s r s'"
proof (cases "selected (authorId s) m")
  case False
  with assms show ?thesis by (simp add: process_message_skip selects_def)
next
  case True
  from process_message_events [OF True assms] obtain devs "end" where
    e: "trace s' = trace s @ Log (Progress (delCount s + 1) (grandTotal s) (msg_id m)) #
          Backup (backup_record m) # devs @ end"
      "backups devs = []" "delete_calls devs \<noteq> []" "set (delete_calls devs) = {msg_id m}"
      "end = [] \<or> end = [Wait delayDelete] \<or> (\<exists>e. end = [Error_Log (Error_Deleting (msg_id m) e)])"
    by blast
  let ?evs = "Log (Progress (delCount s + 1) (grandTotal s) (msg_id m)) #
      Backup (backup_record m) # devs @ end"
  from e(5) have "backups end = [] \<and> delete_calls end = []"
    by (elim disjE exE) simp_all
  with e(2,4) have b: "backups ?evs = [backup_record m]"
    and d: "set (delete_calls ?evs) = {msg_id m}"
    by simp_all
  from process_message_frame [OF assms] have "authorId s' = authorId s" by simp
  moreover have "\<exists>evs. trace s' = trace s @ evs \<and>
      prefix (backups evs) (map backup_record (filter (selected (authorId s)) [m])) \<and>
      (r = Returned () \<longrightarrow>
         backups evs = map backup_record (filter (selected (authorId s)) [m])) \<and>
      set (delete_calls evs) = rec_id ` set (backups evs)"
  proof (intro exI [of _ ?evs] conjI)
    show "trace s' = trace s @ ?evs" by (rule e(1))
    show "prefix (backups ?evs) (map backup_record (filter (selected (authorId s)) [m]))"
      unfolding b using True by simp
    show "r = Returned () \<longrightarrow>
        backups ?evs = map backup_record (filter (selected (authorId s)) [m])"
      unfolding b using True by simp
    show "set (delete_calls ?evs) = rec_id ` set (backups ?evs)"
      unfolding b d by simp
  qed
  ultimately show ?thesis
    unfolding selects_def by blast
qed

lemma process_group_selects:
  "process_group ms s = (r, s') \<Longrightarrow> selects ms s r s'"
proof (induction ms arbitrary: s)
  case Nil
  then show ?case by (auto simp: selects_Nil)
next
  case (Cons m ms)
  obtain r1 s1 where m: "process_message m s = (r1, s1)"
    by (cases "process_message m s")
  note first = process_message_selects [OF m]
  show ?case
  proof (cases "r1 = Returned ()")
    case True
    with Cons.prems m have "process_group ms s1 = (r, s')" by simp
    then have "selects ms s1 r s'" by (rule Cons.IH)
    with first True show ?thesis
      using selects_append [of "[m]" s s1 ms r s'] by simp
  next
    case False
    with Cons.prems m have "r = r1" "s' = s1" by (cases r1; simp)+
    with first False show ?thesis
      using selects_stop [of "[m]" s r s' ms] by simp
  qed
qed

lemma process_page_selects:
  "process_page gs s = (r, s') \<Longrightarrow> selects (concat gs) s r s'"
proof (induction gs arbitrary: s)
  case Nil
  then show ?case by (auto simp: selects_Nil)
next
  case (Cons g gs)
  obtain r1 s1 where g: "process_group g s = (r1, s1)"
    by (cases "process_group g s")
  note first = process_group_selects [OF g]
  show ?case
  proof (cases "r1 = Returned ()")
    case True
    with Cons.prems g have "process_page gs s1 = (r, s')" by simp
    then have "selects (concat gs) s1 r s'" by (rule Cons.IH)
    with first True show ?thesis by (simp add: selects_append)
  next
    case False
    with Cons.prems g have "r = r1" "s' = s1" by (cases r1; simp)+
    with first False show ?thesis by (simp add: selects_stop)
  qed
qed

section \<open>Example inputs\<close>

text \<open>Messages, replies and a deleter for the example runs below.\<close>

definition a_message :: "string \<Rightarrow> string \<Rightarrow> int \<Rightarrow> bool \<Rightarrow> message" where
  "a_message i a ty h =
     \<lparr>msg_id = i, author = \<lparr>author_id = a, username = None\<rparr>, msg_type = ty, hit = h,
      content = Some ''hello'', timestamp = None, attachments = None\<rparr>"

definition a_result :: "int \<Rightarrow> message list list \<Rightarrow> searchResponse" where
  "a_result n gs = \<lparr>retry_after = 0, total_results = n, messages = gs\<rparr>"

definition a_page :: "int \<Rightarrow> message list list \<Rightarrow> reply" where
  "a_page n gs = Response \<lparr>status = 200, body = a_result n gs\<rparr>"

definition a_status :: "nat \<Rightarrow> int \<Rightarrow> reply" where
  "a_status c ms =
     Response \<lparr>status = c, body = \<lparr>retry_after = ms, total_results = 0, messages = []\<rparr>\<rparr>"

definition a_deleter :: "reply list \<Rightarrow> deleter" where
  "a_deleter replies =
     new_deleter (Some ''token'') (Some ''me'') (Some ''channel'') None 1700000000000 replies"

definition an_env :: "string \<rightharpoonup> string" where
  "an_env = [''DISCORD_AUTH_TOKEN'' \<mapsto> ''token'', ''DISCORD_AUTHOR_ID'' \<mapsto> ''me'',
             ''DISCORD_CHANNEL_ID'' \<mapsto> ''channel'']"

definition mixed_page :: "message list list" where
  "mixed_page =
     [[a_message ''m1'' ''me'' 3 True, a_message ''m2'' ''you'' 0 True],
      [a_message ''m3'' ''me'' 0 False, a_message ''m4'' ''me'' 0 True]]"

section \<open>Selection of the messages\<close>

text \<open>
  C1. A message is backed up and a delete call is issued for it if and only if it is
  selected: its type is not 3, its author is the configured author and its \<open>hit\<close> flag is
  true. The trace only grows. For one message (the body of the loop): the backup records
  written are the
  message's own record if it is selected and none otherwise, and the delete calls issued
  are for the message's ID if it is selected and none otherwise. For a page: the backup
  records written are, in order, those of the selected messages of the page (all of them
  when the page is processed to its end, a prefix when a call stays unanswered), and the
  delete calls issued are for the IDs backed up.
\<close>

theorem only_selected_messages_are_backed_up_and_deleted:
  "trace (snd (process_message m s)) = trace s @ new_events s (snd (process_message m s)) \<and>
   backups (new_events s (snd (process_message m s))) =
     (if selected (authorId s) m then [backup_record m] else []) \<and>
   set (delete_calls (new_events s (snd (process_message m s)))) =
     (if selected (authorId s) m then {msg_id m} else {}) \<and>
   trace (snd (process_page gs s)) = trace s @ new_events s (snd (process_page gs s)) \<and>
   prefix (backups (new_events s (snd (process_page gs s))))
     (map backup_record (filter (selected (authorId s)) (concat gs))) \<and>
   (fst (process_page gs s) = Returned () \<longrightarrow>
      backups (new_events s (snd (process_page gs s))) =
        map backup_record (filter (selected (authorId s)) (concat gs))) \<and>
   set (delete_calls (new_events s (snd (process_page gs s)))) =
     rec_id ` set (backups (new_events s (snd (process_page gs s))))"
proof -
  have "selects [m] s (fst (process_message m s)) (snd (process_message m s))"
    by (rule process_message_selects) simp
  then obtain evs where m: "trace (snd (process_message m s)) = trace s @ evs"
    "prefix (backups evs) (map backup_record (filter (selected (authorId s)) [m]))"
    "set (delete_calls evs) = rec_id ` set (backups evs)"
    "fst (process_message m s) = Returned () \<longrightarrow>
       backups evs = map backup_record (filter (selected (authorId s)) [m])"
    by (auto simp: selects_def)
  have em: "new_events s (snd (process_message m s)) = evs"
    using m(1) by (rule new_events_append)
  have bm: "backups evs = (if selected (authorId s) m then [backup_record m] else [])"
  proof (cases "selected (authorId s) m")
    case False
    with m(2) show ?thesis by simp
  next
    case True
    from process_message_events [OF True, of "fst (process_message m s)" "snd (process_message m s)"]
    obtain devs "end" where "trace (snd (process_message m s)) =
        trace s @ Log (Progress (delCount s + 1) (grandTotal s) (msg_id m)) #
          Backup (backup_record m) # devs @ end"
      by auto
    with m(1) have "backups evs \<noteq> []" by auto
    with m(2) True show ?thesis by (cases "backups evs") auto
  qed
  have "selects (concat gs) s (fst (process_page gs s)) (snd (process_page gs s))"
    by (rule process_page_selects) simp
  then obtain pevs where p: "trace (snd (process_page gs s)) = trace s @ pevs"
    "prefix (backups pevs) (map backup_record (filter (selected (authorId s)) (concat gs)))"
    "set (delete_calls pevs) = rec_id ` set (backups pevs)"
    "fst (process_page gs s) = Returned () \<longrightarrow>
       backups pevs = map backup_record (filter (selected (authorId s)) (concat gs))"
    by (auto simp: selects_def)
  have ep: "new_events s (snd (process_page gs s)) = pevs"
    using p(1) by (rule new_events_append)
  from bm m(1,3) p(1-4) show ?thesis
    unfolding em ep by simp
qed

theorem only_selected_messages_witness:
  "fst (process_page mixed_page (a_deleter [a_status 204 0])) = Returned () \<and>
   filter (selected (authorId (a_deleter [a_status 204 0]))) (concat mixed_page) =
     [a_message ''m4'' ''me'' 0 True] \<and>
   backups (new_events (a_deleter [a_status 204 0])
       (snd (process_page mixed_page (a_deleter [a_status 204 0])))) =
     [backup_record (a_message ''m4'' ''me'' 0 True)] \<and>
   set (delete_calls (new_events (a_deleter [a_status 204 0])
       (snd (process_page mixed_page (a_deleter [a_status 204 0]))))) = {''m4''}"
proof -
  have run: "fst (process_page mixed_page (a_deleter [a_status 204 0])) = Returned ()"
    by code_simp
  have sel: "filter (selected (authorId (a_deleter [a_status 204 0]))) (concat mixed_page) =
      [a_message ''m4'' ''me'' 0 True]"
    by code_simp
  have i: "msg_id (a_message ''m4'' ''me'' 0 True) = ''m4''"
    by (simp add: a_message_def)
  from only_selected_messages_are_backed_up_and_deleted
    [where s = "a_deleter [a_status 204 0]" and m = "a_message ''m4'' ''me'' 0 True"
      and gs = mixed_page] run sel i
  show ?thesis by simp
qed

section \<open>The main loop, one iteration at a time\<close>

text \<open>Lines 226 to 229: the total is taken from a result while \<open>grandTotal\<close> is 0.\<close>

definition latch :: "searchResponse \<Rightarrow> deleter \<Rightarrow> deleter" where
  "latch result s =
     (if grandTotal s = 0
      then writeToLog (Total_Messages_Found (total_results result)) False
             (s\<lparr>grandTotal := total_results result\<rparr>)
      else s)"

lemma latch_fields [simp]:
  "authToken (latch x s) = authToken s"
  "authorId (latch x s) = authorId s"
  "channelId (latch x s) = channelId s"
  "beforeMessageId (latch x s) = beforeMessageId s"
  "delCount (latch x s) = delCount s"
  "failCount (latch x s) = failCount s"
  "throttledCount (latch x s) = throttledCount s"
  "throttledTotalTime (latch x s) = throttledTotalTime s"
  "startTime (latch x s) = startTime s"
  "now (latch x s) = now s"
  "lastApiCall (latch x s) = lastApiCall s"
  "server (latch x s) = server s"
  by (simp_all add: latch_def)

lemma main_loop_unfold:
  "main_loop s =
     (case fetchMessages s of
        (Pending, s1) \<Rightarrow> (Pending, s1)
      | (Threw e, s1) \<Rightarrow> (Threw e, s1)
      | (Returned result, s1) \<Rightarrow>
          if total_results result = 0 then (Returned (), latch result s1)
          else (case process_page (messages result) (latch result s1) of
                  (Returned u, s3) \<Rightarrow>
                    if int (delCount s3) \<ge> grandTotal s3
                    then (Returned (), wait delaySearch s3)
                    else main_loop (wait delaySearch s3)
                | (r, s3) \<Rightarrow> (r, s3)))"
  by (subst main_loop.simps)
    (simp add: Let_def latch_def split: prod.split outcome.split)

lemma main_loop_induct [case_names Stop Empty Interrupted Done Again]:
  assumes "\<And>s r s1. fetchMessages s = (r, s1) \<Longrightarrow> r = Pending \<or> (\<exists>e. r = Threw e) \<Longrightarrow> P s"
    and "\<And>s result s1. fetchMessages s = (Returned result, s1) \<Longrightarrow>
           total_results result = 0 \<Longrightarrow> P s"
    and "\<And>s result s1 r s3. fetchMessages s = (Returned result, s1) \<Longrightarrow>
           total_results result \<noteq> 0 \<Longrightarrow>
           process_page (messages result) (latch result s1) = (r, s3) \<Longrightarrow>
           r \<noteq> Returned () \<Longrightarrow> P s"
    and "\<And>s result s1 s3. fetchMessages s = (Returned result, s1) \<Longrightarrow>
           total_results result \<noteq> 0 \<Longrightarrow>
           process_page (messages result) (latch result s1) = (Returned (), s3) \<Longrightarrow>
           int (delCount s3) \<ge> grandTotal s3 \<Longrightarrow> P s"
    and "\<And>s result s1 s3. fetchMessages s = (Returned result, s1) \<Longrightarrow>
           total_results result \<noteq> 0 \<Longrightarrow>
           process_page (messages result) (latch result s1) = (Returned (), s3) \<Longrightarrow>
           int (delCount s3) < grandTotal s3 \<Longrightarrow> P (wait delaySearch s3) \<Longrightarrow> P s"
  shows "P s"
proof (induction "length (server s)" arbitrary: s rule: less_induct)
  case less
  obtain r s1 where f: "fetchMessages s = (r, s1)"
    by (cases "fetchMessages s")
  show ?case
  proof (cases r)
    case Pending
    then show ?thesis by (intro assms(1) [OF f]) simp
  next
    case (Threw e)
    then show ?thesis by (intro assms(1) [OF f]) simp
  next
    case (Returned result)
    with f have f': "fetchMessages s = (Returned result, s1)" by simp
    show ?thesis
    proof (cases "total_results result = 0")
      case True
      with f' show ?thesis by (rule assms(2))
    next
      case False
      obtain r3 s3 where p: "process_page (messages result) (latch result s1) = (r3, s3)"
        by (cases "process_page (messages result) (latch result s1)")
      show ?thesis
      proof (cases "r3 = Returned ()")
        case no: False
        from f' False p no show ?thesis by (rule assms(3))
      next
        case True
        with p have p': "process_page (messages result) (latch result s1) = (Returned (), s3)"
          by simp
        show ?thesis
        proof (cases "int (delCount s3) \<ge> grandTotal s3")
          case True
          from f' False p' True show ?thesis by (rule assms(4))
        next
          case no: False
          from fetchMessages_server [OF f'] have "length (server s1) < length (server s)"
            by simp
          moreover from process_page_server [OF p']
          have "length (server s3) \<le> length (server s1)" by simp
          ultimately have "length (server (wait delaySearch s3)) < length (server s)"
            by simp
          then have "P (wait delaySearch s3)" by (rule less)
          with no show ?thesis by (intro assms(5) [OF f' False p']) simp_all
        qed
      qed
    qed
  qed
qed

text \<open>
  A relation between states that holds across every step of the loops holds across the
  loops.
\<close>

lemma process_group_lift:
  assumes refl: "\<And>s. R s s"
    and trans: "\<And>s s1 s2. R s s1 \<Longrightarrow> R s1 s2 \<Longrightarrow> R s s2"
    and step: "\<And>m s r s'. process_message m s = (r, s') \<Longrightarrow> R s s'"
  shows "process_group ms s = (r, s') \<Longrightarrow> R s s'"
proof (induction ms arbitrary: s)
  case Nil
  then show ?case by (auto intro: refl)
next
  case (Cons m ms)
  obtain r1 s1 where m: "process_message m s = (r1, s1)"
    by (cases "process_message m s")
  from m have first: "R s s1" by (rule step)
  show ?case
  proof (cases "r1 = Returned ()")
    case True
    with Cons.prems m have "process_group ms s1 = (r, s')" by simp
    then have "R s1 s'" by (rule Cons.IH)
    with first show ?thesis by (rule trans)
  next
    case False
    with Cons.prems m have "s' = s1" by (cases r1; simp)
    with first show ?thesis by simp
  qed
qed

lemma process_page_lift:
  assumes refl: "\<And>s. R s s"
    and trans: "\<And>s s1 s2. R s s1 \<Longrightarrow> R s1 s2 \<Longrightarrow> R s s2"
    and step: "\<And>m s r s'. process_message m s = (r, s') \<Longrightarrow> R s s'"
  shows "process_page gs s = (r, s') \<Longrightarrow> R s s'"
proof (induction gs arbitrary: s)
  case Nil
  then show ?case by (auto intro: refl)
next
  case (Cons g gs)
  obtain r1 s1 where g: "process_group g s = (r1, s1)"
    by (cases "process_group g s")
  have first: "R s s1"
  proof (rule process_group_lift [of R, OF _ _ _ g])
    show "R s s" for s by (rule refl)
    show "R s s1 \<Longrightarrow> R s1 s2 \<Longrightarrow> R s s2" for s s1 s2 by (rule trans)
    show "process_message m s = (r, s') \<Longrightarrow> R s s'" for m s r s' by (rule step)
  qed
  show ?case
  proof (cases "r1 = Returned ()")
    case True
    with Cons.prems g have "process_page gs s1 = (r, s')" by simp
    then have "R s1 s'" by (rule Cons.IH)
    with first show ?thesis by (rule trans)
  next
    case False
    with Cons.prems g have "s' = s1" by (cases r1; simp)
    with first show ?thesis by simp
  qed
qed

lemma main_loop_lift:
  assumes refl: "\<And>s. R s s"
    and trans: "\<And>s s1 s2. R s s1 \<Longrightarrow> R s1 s2 \<Longrightarrow> R s s2"
    and search: "\<And>s r s'. fetchMessages s = (r, s') \<Longrightarrow> R s s'"
    and total: "\<And>result s. R s (latch result s)"
    and step: "\<And>m s r s'. process_message m s = (r, s') \<Longrightarrow> R s s'"
    and pause: "\<And>s. R s (wait delaySearch s)"
  shows "main_loop s = (r, s') \<Longrightarrow> R s s'"
proof -
  have page: "R s s'" if "process_page gs s = (r, s')" for gs s r s'
  proof (rule process_page_lift [of R, OF _ _ _ that])
    show "R s s" for s by (rule refl)
    show "R s s1 \<Longrightarrow> R s1 s2 \<Longrightarrow> R s s2" for s s1 s2 by (rule trans)
    show "process_message m s = (r, s') \<Longrightarrow> R s s'" for m s r s' by (rule step)
  qed
  show "main_loop s = (r, s') \<Longrightarrow> R s s'"
proof (induction s rule: main_loop_induct)
  case (Stop s r1 s1)
  from Stop(2,3) have "s' = s1"
    by (auto simp: main_loop_unfold [of s] Stop(1))
  with search [OF Stop(1)] show ?case by simp
next
  case (Empty s result s1)
  then have "s' = latch result s1"
    by (simp add: main_loop_unfold [of s])
  with search [OF Empty(1)] total [of s1 result] show ?case by (auto intro: trans)
next
  case (Interrupted s result s1 r3 s3)
  then have "s' = s3"
    by (cases r3) (simp_all add: main_loop_unfold [of s])
  moreover from Interrupted(3) have "R (latch result s1) s3"
    by (rule page)
  ultimately show ?case
    using search [OF Interrupted(1)] total [of s1 result] by (auto intro: trans)
next
  case (Done s result s1 s3)
  then have "s' = wait delaySearch s3"
    by (simp add: main_loop_unfold [of s])
  moreover from Done(3) have "R (latch result s1) s3"
    by (rule page)
  ultimately show ?case
    using search [OF Done(1)] total [of s1 result] pause [of s3] by (auto intro: trans)
next
  case (Again s result s1 s3)
  then have "main_loop (wait delaySearch s3) = (r, s')"
    by (simp add: main_loop_unfold [of s])
  then have "R (wait delaySearch s3) s'" by (rule Again.IH)
  moreover from Again(3) have "R (latch result s1) s3"
    by (rule page)
  ultimately show ?case
    using search [OF Again(1)] total [of s1 result] pause [of s3] by (blast intro: trans)
qed
qed

section \<open>Backup before deletion\<close>

text \<open>
  Reading a trace for the order of backups and delete calls. The phase is \<open>Saved m\<close> when
  the record of \<open>m\<close> has been written and no delete call has followed yet, and \<open>Calling m\<close>
  once a delete call for \<open>m\<close> has been issued. A backup record may not follow another
  one directly, and a delete call must be for the message whose record was written last.
  \<open>backup_then_delete\<close> is \<open>None\<close> for a trace that breaks this order.
\<close>

datatype phase = Idle | Saved string | Calling string

fun backup_step :: "phase \<Rightarrow> event \<Rightarrow> phase option" where
  "backup_step p (Backup b) = (case p of Saved m \<Rightarrow> None | _ \<Rightarrow> Some (Saved (rec_id b)))"
| "backup_step p (Fetch (Delete_Request a c m)) =
     (if p = Saved m \<or> p = Calling m then Some (Calling m) else None)"
| "backup_step p e = Some p"

fun backup_then_delete :: "phase \<Rightarrow> event list \<Rightarrow> phase option" where
  "backup_then_delete p [] = Some p"
| "backup_then_delete p (e # es) =
     (case backup_step p e of None \<Rightarrow> None | Some p' \<Rightarrow> backup_then_delete p' es)"

fun settled :: "phase \<Rightarrow> bool" where
  "settled (Saved m) = False"
| "settled p = True"

definition orderly :: "event list \<Rightarrow> bool" where
  "orderly es = (case backup_then_delete Idle es of None \<Rightarrow> False | Some p \<Rightarrow> settled p)"

lemma backup_then_delete_append:
  "backup_then_delete p (xs @ ys) =
     (case backup_then_delete p xs of None \<Rightarrow> None | Some p' \<Rightarrow> backup_then_delete p' ys)"
  by (induction xs arbitrary: p) (simp_all split: option.split)

lemma backup_step_quiet:
  "backups [e] = [] \<Longrightarrow> delete_calls [e] = [] \<Longrightarrow> backup_step p e = Some p"
  by (cases "(p, e)" rule: backup_step.cases) simp_all

lemma backup_then_delete_quiet:
  "backups evs = [] \<Longrightarrow> delete_calls evs = [] \<Longrightarrow> backup_then_delete p evs = Some p"
proof (induction evs)
  case Nil
  then show ?case by simp
next
  case (Cons e evs)
  have split: "backups (e # evs) = backups [e] @ backups evs"
    "delete_calls (e # evs) = delete_calls [e] @ delete_calls evs"
    using backups_append [of "[e]" evs] delete_calls_append [of "[e]" evs] by simp_all
  with Cons.prems have "backups [e] = []" "delete_calls [e] = []"
    "backups evs = []" "delete_calls evs = []" by simp_all
  with Cons.IH show ?case by (simp add: backup_step_quiet)
qed

lemma backup_then_delete_calls:
  "backups evs = [] \<Longrightarrow> set (delete_calls evs) \<subseteq> {m} \<Longrightarrow> p = Saved m \<or> p = Calling m \<Longrightarrow>
     backup_then_delete p evs = Some (if delete_calls evs = [] then p else Calling m)"
proof (induction evs arbitrary: p)
  case Nil
  then show ?case by simp
next
  case (Cons e evs)
  have split: "backups (e # evs) = backups [e] @ backups evs"
    "delete_calls (e # evs) = delete_calls [e] @ delete_calls evs"
    using backups_append [of "[e]" evs] delete_calls_append [of "[e]" evs] by simp_all
  with Cons.prems have b: "backups [e] = []" "backups evs = []"
    and d: "set (delete_calls [e]) \<subseteq> {m}" "set (delete_calls evs) \<subseteq> {m}" by simp_all
  show ?case
  proof (cases "delete_calls [e] = []")
    case True
    with b have "backup_step p e = Some p" by (simp add: backup_step_quiet)
    with Cons.IH [OF b(2) d(2) Cons.prems(3)] True split show ?thesis by simp
  next
    case False
    with d(1) obtain a c where e: "e = Fetch (Delete_Request a c m)"
      by (cases "[e]" rule: delete_calls.cases) auto
    with Cons.prems(3) have "backup_step p e = Some (Calling m)" by auto
    with Cons.IH [OF b(2) d(2), of "Calling m"] e show ?thesis by simp
  qed
qed

text \<open>Events that keep the order, from any settled phase.\<close>

definition keeps_order :: "event list \<Rightarrow> bool" where
  "keeps_order evs =
     (\<forall>p. settled p \<longrightarrow> (\<exists>p'. backup_then_delete p evs = Some p' \<and> settled p'))"

lemma keeps_order_quiet: "backups evs = [] \<Longrightarrow> delete_calls evs = [] \<Longrightarrow> keeps_order evs"
  by (simp add: keeps_order_def backup_then_delete_quiet)

lemma keeps_order_append: "keeps_order xs \<Longrightarrow> keeps_order ys \<Longrightarrow> keeps_order (xs @ ys)"
  by (fastforce simp: keeps_order_def backup_then_delete_append)

lemma keeps_order_orderly:
  assumes "keeps_order evs"
  shows "orderly evs"
proof -
  have "settled Idle" by simp
  with assms obtain p' where "backup_then_delete Idle evs = Some p'" "settled p'"
    unfolding keeps_order_def by blast
  then show ?thesis by (simp add: orderly_def)
qed

definition in_order :: "deleter \<Rightarrow> deleter \<Rightarrow> bool" where
  "in_order s s' = (\<exists>evs. trace s' = trace s @ evs \<and> keeps_order evs)"

lemma in_order_refl: "in_order s s"
  by (simp add: in_order_def keeps_order_quiet)

lemma in_order_trans: "in_order s s1 \<Longrightarrow> in_order s1 s2 \<Longrightarrow> in_order s s2"
  by (auto simp: in_order_def intro: keeps_order_append)

lemma in_order_quiet:
  "trace s' = trace s @ evs \<Longrightarrow> backups evs = [] \<Longrightarrow> delete_calls evs = [] \<Longrightarrow> in_order s s'"
  by (auto simp: in_order_def intro: keeps_order_quiet)

lemma fetchMessages_in_order: "fetchMessages s = (r, s') \<Longrightarrow> in_order s s'"
  by (rule in_order_quiet [where evs = "new_events s s'"])
    (simp_all add: fetchMessages_requests)

lemma process_message_in_order:
  assumes "process_message m s = (r, s')"
  shows "in_order s s'"
proof (cases "selected (authorId s) m")
  case False
  with assms show ?thesis by (simp add: process_message_skip in_order_refl)
next
  case True
  from process_message_events [OF True assms] obtain devs "end" where
    e: "trace s' = trace s @ Log (Progress (delCount s + 1) (grandTotal s) (msg_id m)) #
          Backup (backup_record m) # devs @ end"
      "backups devs = []" "delete_calls devs \<noteq> []" "set (delete_calls devs) = {msg_id m}"
      "end = [] \<or> end = [Wait delayDelete] \<or> (\<exists>e. end = [Error_Log (Error_Deleting (msg_id m) e)])"
    by blast
  from e(5) have q: "backups end = [] \<and> delete_calls end = []"
    by (elim disjE exE) simp_all
  have d: "backup_then_delete (Saved (msg_id m)) devs = Some (Calling (msg_id m))"
    using backup_then_delete_calls [of devs "msg_id m" "Saved (msg_id m)"] e(2-4) by simp
  have "keeps_order (Log (Progress (delCount s + 1) (grandTotal s) (msg_id m)) #
      Backup (backup_record m) # devs @ end)"
    unfolding keeps_order_def
  proof (intro allI impI)
    fix p
    assume "settled p"
    then have "backup_step p (Backup (backup_record m)) = Some (Saved (msg_id m))"
      by (cases p) simp_all
    with d q show "\<exists>p'. backup_then_delete p
        (Log (Progress (delCount s + 1) (grandTotal s) (msg_id m)) #
          Backup (backup_record m) # devs @ end) = Some p' \<and> settled p'"
      by (simp add: backup_then_delete_append backup_then_delete_quiet)
  qed
  with e(1) show ?thesis unfolding in_order_def by blast
qed

text \<open>The same for \<open>deleteMessages\<close>, which adds lines to the logs before and after the loop.\<close>

fun outer_line :: "logLine \<Rightarrow> bool" where
  "outer_line (Starting_Deletion t) = True"
| "outer_line (Error_During_Processing e) = True"
| "outer_line (Summary t d c w n f) = True"
| "outer_line l = False"

lemma deleteMessages_lift:
  assumes refl: "\<And>s. R s s"
    and trans: "\<And>s s1 s2. R s s1 \<Longrightarrow> R s1 s2 \<Longrightarrow> R s s2"
    and search: "\<And>s r s'. fetchMessages s = (r, s') \<Longrightarrow> R s s'"
    and total: "\<And>result s. R s (latch result s)"
    and step: "\<And>m s r s'. process_message m s = (r, s') \<Longrightarrow> R s s'"
    and pause: "\<And>s. R s (wait delaySearch s)"
    and log: "\<And>l b s. outer_line l \<Longrightarrow> R s (writeToLog l b s)"
  shows "deleteMessages s = (r, s') \<Longrightarrow> R s s'"
proof -
  assume run: "deleteMessages s = (r, s')"
  let ?s0 = "writeToLog (Starting_Deletion (startTime s)) False s"
  obtain r1 s1 where l: "main_loop ?s0 = (r1, s1)"
    by (cases "main_loop ?s0")
  have "R ?s0 s1"
  proof (rule main_loop_lift [of R, OF _ _ _ _ _ _ l])
    show "R s s" for s by (rule refl)
    show "R s s1 \<Longrightarrow> R s1 s2 \<Longrightarrow> R s s2" for s s1 s2 by (rule trans)
    show "fetchMessages s = (r, s') \<Longrightarrow> R s s'" for s r s' by (rule search)
    show "R s (latch result s)" for result s by (rule total)
    show "process_message m s = (r, s') \<Longrightarrow> R s s'" for m s r s' by (rule step)
    show "R s (wait delaySearch s)" for s by (rule pause)
  qed
  have "R s ?s0" by (rule log) simp
  then have start: "R s s1" using \<open>R ?s0 s1\<close> by (rule trans)
  have summary: "R s (printSummary s)" for s
    unfolding printSummary_def by (rule log) simp
  show "R s s'"
  proof (cases r1)
    case (Returned u)
    with run l have "s' = printSummary s1" by (simp add: deleteMessages_def)
    with trans [OF start summary [of s1]] show ?thesis by simp
  next
    case (Threw e)
    let ?s2 = "writeToLog (Error_During_Processing e) True s1"
    from Threw run l have "s' = printSummary ?s2"
      by (simp add: deleteMessages_def)
    moreover have "R s1 ?s2" by (rule log) simp
    with start have "R s ?s2" by (rule trans)
    then have "R s (printSummary ?s2)" using summary by (rule trans)
    ultimately show ?thesis by simp
  next
    case Pending
    with run l have "s' = s1" by (simp add: deleteMessages_def)
    with start show ?thesis by simp
  qed
qed

lemma new_deleter_trace:
  "backups (trace (new_deleter token aid cid bid t replies)) = []"
  "requests (trace (new_deleter token aid cid bid t replies)) = []"
  "delete_calls (trace (new_deleter token aid cid bid t replies)) = []"
  by (simp_all add: new_deleter_def Let_def split: option.split)

lemma run_trace:
  "\<exists>r s' end. deleteMessages (new_deleter (env ''DISCORD_AUTH_TOKEN'') (env ''DISCORD_AUTHOR_ID'')
       (env ''DISCORD_CHANNEL_ID'') (env ''DISCORD_BEFORE_MESSAGE_ID'') t replies) = (r, s') \<and>
     trace (snd (run env t replies)) = trace s' @ end \<and>
     (end = [] \<or> (\<exists>e. r = Threw e \<and> end = [Fatal_Error e]))"
  by (cases "deleteMessages (new_deleter (env ''DISCORD_AUTH_TOKEN'') (env ''DISCORD_AUTHOR_ID'')
       (env ''DISCORD_CHANNEL_ID'') (env ''DISCORD_BEFORE_MESSAGE_ID'') t replies)")
    (auto simp: run_def Let_def split: outcome.split)

lemma deleteMessages_in_order: "deleteMessages s = (r, s') \<Longrightarrow> in_order s s'"
proof (rule deleteMessages_lift [of in_order])
  show "in_order s s" for s by (rule in_order_refl)
  show "in_order s s1 \<Longrightarrow> in_order s1 s2 \<Longrightarrow> in_order s s2" for s s1 s2
    by (rule in_order_trans)
  show "fetchMessages s = (r, s') \<Longrightarrow> in_order s s'" for s r s'
    by (rule fetchMessages_in_order)
  show "in_order s (latch result s)" for result s
    by (cases "grandTotal s = 0")
      (auto simp: latch_def in_order_refl
        intro!: in_order_quiet [where evs = "[Log (Total_Messages_Found (total_results result))]"])
  show "process_message m s = (r, s') \<Longrightarrow> in_order s s'" for m s r s'
    by (rule process_message_in_order)
  show "in_order s (wait delaySearch s)" for s
    by (rule in_order_quiet [where evs = "[Wait delaySearch]"]) simp_all
  show "outer_line l \<Longrightarrow> in_order s (writeToLog l b s)" for l b s
    by (rule in_order_quiet [where evs = "[if b then Error_Log l else Log l]"]) simp_all
qed

lemma run_orderly: "orderly (trace (snd (run env t replies)))"
proof -
  from run_trace [of env t replies] obtain r s' "end" where
    d: "deleteMessages (new_deleter (env ''DISCORD_AUTH_TOKEN'') (env ''DISCORD_AUTHOR_ID'')
       (env ''DISCORD_CHANNEL_ID'') (env ''DISCORD_BEFORE_MESSAGE_ID'') t replies) = (r, s')"
    and t: "trace (snd (run env t replies)) = trace s' @ end"
    and e: "end = [] \<or> (\<exists>e. r = Threw e \<and> end = [Fatal_Error e])"
    by blast
  let ?s0 = "new_deleter (env ''DISCORD_AUTH_TOKEN'') (env ''DISCORD_AUTHOR_ID'')
       (env ''DISCORD_CHANNEL_ID'') (env ''DISCORD_BEFORE_MESSAGE_ID'') t replies"
  from deleteMessages_in_order [OF d] obtain evs where
    evs: "trace s' = trace ?s0 @ evs" "keeps_order evs"
    by (auto simp: in_order_def)
  have "keeps_order (trace ?s0)"
    by (rule keeps_order_quiet) (simp_all add: new_deleter_trace)
  moreover from e have "keeps_order end"
    by (auto intro: keeps_order_quiet)
  ultimately have "keeps_order (trace ?s0 @ evs @ end)"
    using evs(2) by (intro keeps_order_append)
  with t evs(1) show ?thesis by (simp add: keeps_order_orderly)
qed

text \<open>
  C2. For a selected message, the body of the loop writes the log line, then the
  message's backup record, and only then issues the delete calls for the message (one,
  and one more after each 429); no other backup record is written, whatever the replies
  to the delete calls are. In the trace of every run of the script, a delete call is for
  the message whose backup record was written last, and no two backup records follow
  each other without a delete call between them.
\<close>

theorem backup_written_once_before_delete:
  "(selected (authorId s) m \<longrightarrow>
      (\<exists>rest. trace (snd (process_message m s)) =
           trace s @ Log (Progress (delCount s + 1) (grandTotal s) (msg_id m)) #
             Backup (backup_record m) # rest \<and>
         backups rest = [] \<and> delete_calls rest \<noteq> [] \<and>
         set (delete_calls rest) = {msg_id m})) \<and>
   orderly (trace (snd (run env t replies)))"
proof (intro conjI impI)
  assume sel: "selected (authorId s) m"
  from process_message_events [OF sel, of "fst (process_message m s)" "snd (process_message m s)"]
  obtain devs "end" where
    e: "trace (snd (process_message m s)) =
          trace s @ Log (Progress (delCount s + 1) (grandTotal s) (msg_id m)) #
            Backup (backup_record m) # devs @ end"
      "backups devs = []" "delete_calls devs \<noteq> []" "set (delete_calls devs) = {msg_id m}"
      "end = [] \<or> end = [Wait delayDelete] \<or> (\<exists>e. end = [Error_Log (Error_Deleting (msg_id m) e)])"
    by auto
  from e(5) have q: "backups end = [] \<and> delete_calls end = []"
    by (elim disjE exE) simp_all
  from e(1-4) q show "\<exists>rest. trace (snd (process_message m s)) =
      trace s @ Log (Progress (delCount s + 1) (grandTotal s) (msg_id m)) #
        Backup (backup_record m) # rest \<and>
      backups rest = [] \<and> delete_calls rest \<noteq> [] \<and> set (delete_calls rest) = {msg_id m}"
    by (intro exI [of _ "devs @ end"]) simp
next
  show "orderly (trace (snd (run env t replies)))" by (rule run_orderly)
qed

theorem backup_written_once_witness:
  "selected (authorId (a_deleter [a_status 403 0])) (a_message ''m5'' ''me'' 0 True) \<and>
   failCount (snd (process_message (a_message ''m5'' ''me'' 0 True)
     (a_deleter [a_status 403 0]))) = 1 \<and>
   (\<exists>rest. trace
        (snd (process_message (a_message ''m5'' ''me'' 0 True) (a_deleter [a_status 403 0]))) =
      trace (a_deleter [a_status 403 0]) @
        Log (Progress 1 0 ''m5'') # Backup (backup_record (a_message ''m5'' ''me'' 0 True)) # rest \<and>
      backups rest = [] \<and> delete_calls rest \<noteq> [] \<and> set (delete_calls rest) = {''m5''}) \<and>
   orderly (trace (snd (run an_env 1700000000000
     [a_page 1 [[a_message ''m5'' ''me'' 0 True]], a_status 403 0])))"
proof -
  have sel: "selected (authorId (a_deleter [a_status 403 0])) (a_message ''m5'' ''me'' 0 True)"
    by code_simp
  have f: "failCount (snd (process_message (a_message ''m5'' ''me'' 0 True)
     (a_deleter [a_status 403 0]))) = 1"
    by code_simp
  have i: "msg_id (a_message ''m5'' ''me'' 0 True) = ''m5''"
    "delCount (a_deleter [a_status 403 0]) = 0" "grandTotal (a_deleter [a_status 403 0]) = 0"
    by (simp_all add: a_message_def a_deleter_def new_deleter_def Let_def truthy_def)
  from backup_written_once_before_delete
    [of "a_deleter [a_status 403 0]" "a_message ''m5'' ''me'' 0 True" an_env 1700000000000
      "[a_page 1 [[a_message ''m5'' ''me'' 0 True]], a_status 403 0]"] sel f i
  show ?thesis by simp
qed

section \<open>Retry after 429 and 202\<close>









section \<open>Leaving the main loop\<close>

text \<open>\<open>consumes s s'\<close>: the replies left in \<open>s'\<close> are what is left of those of \<open>s\<close>.\<close>

definition consumes :: "deleter \<Rightarrow> deleter \<Rightarrow> bool" where
  "consumes s s' = (\<exists>pre. server s = pre @ server s' \<and> prefix (trace s) (trace s'))"

lemma consumes_refl: "consumes s s"
  by (simp add: consumes_def)

lemma consumes_trans: "consumes s s1 \<Longrightarrow> consumes s1 s2 \<Longrightarrow> consumes s s2"
  by (auto simp: consumes_def)

lemma consumes_same:
  "server s' = server s \<Longrightarrow> trace s' = trace s @ evs \<Longrightarrow> consumes s s'"
  by (simp add: consumes_def)

lemma fetchMessages_consumes:
  "fetchMessages s = (r, s') \<Longrightarrow>
     consumes s s' \<and>
     (\<forall>result. r = Returned result \<longrightarrow>
        (\<exists>pre resp. server s = pre @ Response resp # server s' \<and> body resp = result))"
proof (induction s arbitrary: r s' rule: fetchMessages_induct)
  case (Pending s)
  then show ?case
    by (auto simp: fetchMessages_unfold [of s] consumes_def enforceRateLimit_trace)
next
  case (Failure s rs)
  then show ?case
    by (auto simp: fetchMessages_unfold [of s] consumes_def enforceRateLimit_trace)
next
  case (Retry202 s resp rs)
  let ?s1 = "wait (retry_after (body resp))
      (writeToLog (Channel_Not_Indexed (retry_after (body resp))) False
        (sent (search_request s) s))"
  from Retry202.prems Retry202.hyps have "fetchMessages ?s1 = (r, s')"
    by (simp add: fetchMessages_unfold [of s])
  note IH = Retry202.IH [OF this]
  have "consumes s ?s1"
    using Retry202.hyps(1) by (simp add: consumes_def enforceRateLimit_trace)
  with IH have "consumes s s'" by (blast intro: consumes_trans)
  moreover have "\<exists>pre resp'. server s = pre @ Response resp' # server s' \<and> body resp' = result"
    if "r = Returned result" for result
  proof -
    from IH that obtain pre resp' where
      "server ?s1 = pre @ Response resp' # server s'" "body resp' = result" by blast
    with Retry202.hyps(1) have
      "server s = (Response resp # pre) @ Response resp' # server s' \<and> body resp' = result"
      by simp
    then show ?thesis by blast
  qed
  ultimately show ?case by blast
next
  case (Retry429 s resp rs)
  let ?s1 = "throttled (Rate_Limit_Reached (retry_after (body resp)))
      (retry_after (body resp)) (sent (search_request s) s)"
  from Retry429.prems Retry429.hyps have "fetchMessages ?s1 = (r, s')"
    by (simp add: fetchMessages_unfold [of s])
  note IH = Retry429.IH [OF this]
  have "consumes s ?s1"
    using Retry429.hyps(1) by (simp add: consumes_def enforceRateLimit_trace)
  with IH have "consumes s s'" by (blast intro: consumes_trans)
  moreover have "\<exists>pre resp'. server s = pre @ Response resp' # server s' \<and> body resp' = result"
    if "r = Returned result" for result
  proof -
    from IH that obtain pre resp' where
      "server ?s1 = pre @ Response resp' # server s'" "body resp' = result" by blast
    with Retry429.hyps(1) have
      "server s = (Response resp # pre) @ Response resp' # server s' \<and> body resp' = result"
      by simp
    then show ?thesis by blast
  qed
  ultimately show ?case by blast
next
  case (Final s resp rs)
  then show ?case
    by (auto simp: fetchMessages_unfold [of s] consumes_def enforceRateLimit_trace
        split: if_splits)
qed

lemma deleteMessage_consumes: "deleteMessage m s = (r, s') \<Longrightarrow> consumes s s'"
proof (induction s arbitrary: r s' rule: deleteMessage_induct [where m = m])
  case (Pending s)
  then show ?case
    by (auto simp: deleteMessage_unfold [of m s] consumes_def enforceRateLimit_trace)
next
  case (Failure s rs)
  then show ?case
    by (auto simp: deleteMessage_unfold [of m s] consumes_def enforceRateLimit_trace)
next
  case (Retry429 s resp rs)
  let ?s1 = "throttled (Rate_Limit_On_Deletion (retry_after (body resp)))
      (retry_after (body resp)) (sent (delete_request m s) s)"
  from Retry429.prems Retry429.hyps have "deleteMessage m ?s1 = (r, s')"
    by (simp add: deleteMessage_unfold [of m s])
  note IH = Retry429.IH [OF this]
  have "consumes s ?s1"
    using Retry429.hyps(1) by (simp add: consumes_def enforceRateLimit_trace)
  with IH show ?case by (blast intro: consumes_trans)
next
  case (Final s resp rs)
  then show ?case
    by (auto simp: deleteMessage_unfold [of m s] consumes_def enforceRateLimit_trace
        split: if_splits)
qed

lemma process_message_consumes:
  assumes "process_message m s = (r, s')"
  shows "consumes s s'"
proof (cases "selected (authorId s) m")
  case False
  with assms show ?thesis by (simp add: process_message_skip consumes_refl)
next
  case True
  obtain d s3 where d: "deleteMessage (msg_id m) (announced m s) = (d, s3)"
    by (cases "deleteMessage (msg_id m) (announced m s)")
  have "consumes s (announced m s)"
    by (rule consumes_same [where evs = "[Log (Progress (delCount s + 1) (grandTotal s) (msg_id m)),
      Backup (backup_record m)]"]) (simp_all add: announced_def)
  with deleteMessage_consumes [OF d] have "consumes s s3"
    by (blast intro: consumes_trans)
  moreover have "consumes s3 s'"
    using assms d by (cases d) (auto simp: process_message_selected [OF True] consumes_def)
  ultimately show ?thesis by (rule consumes_trans)
qed

lemma process_page_consumes: "process_page gs s = (r, s') \<Longrightarrow> consumes s s'"
proof (rule process_page_lift [of consumes])
  show "consumes s s" for s by (rule consumes_refl)
  show "consumes s s1 \<Longrightarrow> consumes s1 s2 \<Longrightarrow> consumes s s2" for s s1 s2
    by (rule consumes_trans)
  show "process_message m s = (r, s') \<Longrightarrow> consumes s s'" for m s r s'
    by (rule process_message_consumes)
qed

lemma latch_consumes: "consumes s (latch result s)"
  by (simp add: latch_def consumes_def)

lemma main_loop_consumes: "main_loop s = (r, s') \<Longrightarrow> consumes s s'"
proof (rule main_loop_lift [of consumes])
  show "consumes s s" for s by (rule consumes_refl)
  show "consumes s s1 \<Longrightarrow> consumes s1 s2 \<Longrightarrow> consumes s s2" for s s1 s2
    by (rule consumes_trans)
  show "fetchMessages s = (r, s') \<Longrightarrow> consumes s s'" for s r s'
    by (simp add: fetchMessages_consumes)
  show "consumes s (latch result s)" for result s by (rule latch_consumes)
  show "process_message m s = (r, s') \<Longrightarrow> consumes s s'" for m s r s'
    by (rule process_message_consumes)
  show "consumes s (wait delaySearch s)" for s
    by (simp add: consumes_def)
qed

text \<open>Every iteration starts with a search.\<close>

lemma main_loop_first:
  "\<exists>evs. trace (snd (main_loop s)) = trace (enforceRateLimit s) @ Fetch (search_request s) # evs"
proof -
  obtain r s1 where f: "fetchMessages s = (r, s1)"
    by (cases "fetchMessages s")
  from fetchMessages_first [OF f] obtain evs where
    evs: "trace s1 = trace (enforceRateLimit s) @ Fetch (search_request s) # evs" by blast
  have "prefix (trace s1) (trace (snd (main_loop s)))"
  proof (cases r)
    case Pending
    with f show ?thesis by (simp add: main_loop_unfold [of s])
  next
    case (Threw e)
    with f show ?thesis by (simp add: main_loop_unfold [of s])
  next
    case (Returned result)
    obtain r3 s3 where p: "process_page (messages result) (latch result s1) = (r3, s3)"
      by (cases "process_page (messages result) (latch result s1)")
    have a: "prefix (trace s1) (trace (latch result s1))"
      using latch_consumes [of s1 result] by (simp add: consumes_def)
    have b: "prefix (trace (latch result s1)) (trace s3)"
      using process_page_consumes [OF p] by (simp add: consumes_def)
    have c: "prefix (trace s3) (trace (wait delaySearch s3))" by simp
    have d: "prefix (trace (wait delaySearch s3)) (trace (snd (main_loop (wait delaySearch s3))))"
      using main_loop_consumes [of "wait delaySearch s3" "fst (main_loop (wait delaySearch s3))"
          "snd (main_loop (wait delaySearch s3))"]
      by (simp add: consumes_def)
    from a b c d have "prefix (trace s1) (trace (latch result s1))"
      "prefix (trace s1) (trace s3)" "prefix (trace s1) (trace (wait delaySearch s3))"
      "prefix (trace s1) (trace (snd (main_loop (wait delaySearch s3))))"
      by (blast intro: prefix_order.trans)+
    with Returned f p show ?thesis
      by (cases r3) (simp_all add: main_loop_unfold [of s])
  qed
  with evs show ?thesis by (auto simp: prefix_def)
qed

lemma new_events_gate:
  "trace s' = trace (enforceRateLimit s) @ evs \<Longrightarrow> \<exists>g. new_events s s' = g @ evs"
  by (simp add: new_events_def enforceRateLimit_trace)

lemma main_loop_returned:
  "main_loop s = (Returned (), s') \<Longrightarrow>
     (\<exists>pre resp. server s = pre @ Response resp # server s' \<and> total_results (body resp) = 0) \<or>
     (grandTotal s' \<le> int (delCount s') \<and> (\<exists>tr. trace s' = tr @ [Wait delaySearch]))"
proof (induction s rule: main_loop_induct)
  case (Stop s r1 s1)
  then show ?case by (auto simp: main_loop_unfold [of s])
next
  case (Empty s result s1)
  then have "s' = latch result s1" by (simp add: main_loop_unfold [of s])
  with fetchMessages_consumes [OF Empty(1)] Empty(2) show ?case by auto
next
  case (Interrupted s result s1 r3 s3)
  then show ?case by (cases r3) (simp_all add: main_loop_unfold [of s])
next
  case (Done s result s1 s3)
  then have "s' = wait delaySearch s3" by (simp add: main_loop_unfold [of s])
  with Done(4) show ?case by simp
next
  case (Again s result s1 s3)
  then have l: "main_loop (wait delaySearch s3) = (Returned (), s')"
    by (simp add: main_loop_unfold [of s])
  have "consumes s s1" using fetchMessages_consumes [OF Again(1)] by simp
  moreover have "consumes s1 (latch result s1)" by (rule latch_consumes)
  moreover have "consumes (latch result s1) s3" using Again(3) by (rule process_page_consumes)
  moreover have "consumes s3 (wait delaySearch s3)" by (simp add: consumes_def)
  ultimately have "consumes s (wait delaySearch s3)" by (blast intro: consumes_trans)
  then obtain pre0 where pre0: "server s = pre0 @ server (wait delaySearch s3)"
    by (auto simp: consumes_def)
  from Again.IH [OF l] show ?case
  proof
    assume "\<exists>pre resp. server (wait delaySearch s3) = pre @ Response resp # server s' \<and>
      total_results (body resp) = 0"
    then obtain pre resp where "server (wait delaySearch s3) = pre @ Response resp # server s'"
      "total_results (body resp) = 0" by blast
    with pre0 have "server s = (pre0 @ pre) @ Response resp # server s' \<and>
      total_results (body resp) = 0" by simp
    then show ?thesis by blast
  next
    assume "grandTotal s' \<le> int (delCount s') \<and> (\<exists>tr. trace s' = tr @ [Wait delaySearch])"
    then show ?thesis by simp
  qed
qed

text \<open>
  C4. After a search result: if it reports \<open>total_results = 0\<close> the loop returns at once,
  in the state after the result was taken (no further call); otherwise, when the page has
  been processed to its end and the pause after it is over, the loop returns in that
  state if \<open>delCount \<ge> grandTotal\<close>, and if \<open>delCount < grandTotal\<close> it goes on as a new
  iteration, which issues a search. And whenever the loop returns, either the last reply
  it took was a search result with \<open>total_results = 0\<close>, or \<open>delCount \<ge> grandTotal\<close> holds
  and the last thing it did was the pause after a page.
\<close>

theorem main_loop_returns_exactly_on_exit_condition:
  "(fetchMessages s = (Returned result, s1) \<longrightarrow>
      (total_results result = 0 \<longrightarrow>
         main_loop s = (Returned (), latch result s1) \<and>
         requests (new_events s1 (latch result s1)) = []) \<and>
      (total_results result \<noteq> 0 \<and>
       process_page (messages result) (latch result s1) = (Returned (), s3) \<longrightarrow>
         (grandTotal s3 \<le> int (delCount s3) \<longrightarrow>
            main_loop s = (Returned (), wait delaySearch s3)) \<and>
         (int (delCount s3) < grandTotal s3 \<longrightarrow>
            main_loop s = main_loop (wait delaySearch s3) \<and>
            requests (new_events (wait delaySearch s3)
              (snd (main_loop (wait delaySearch s3)))) \<noteq> []))) \<and>
   (main_loop s = (Returned (), s') \<longrightarrow>
      (\<exists>pre resp. server s = pre @ Response resp # server s' \<and> total_results (body resp) = 0) \<or>
      (grandTotal s' \<le> int (delCount s') \<and> (\<exists>tr. trace s' = tr @ [Wait delaySearch])))"
proof (intro conjI impI)
  assume f: "fetchMessages s = (Returned result, s1)" and z: "total_results result = 0"
  then show "main_loop s = (Returned (), latch result s1)"
    by (simp add: main_loop_unfold [of s])
  have "\<exists>evs. trace (latch result s1) = trace s1 @ evs \<and> requests evs = []"
    by (simp add: latch_def)
  then show "requests (new_events s1 (latch result s1)) = []"
    by (auto dest: new_events_append)
next
  assume f: "fetchMessages s = (Returned result, s1)"
    and p: "total_results result \<noteq> 0 \<and>
      process_page (messages result) (latch result s1) = (Returned (), s3)"
  {
    assume "grandTotal s3 \<le> int (delCount s3)"
    with f p show "main_loop s = (Returned (), wait delaySearch s3)"
      by (simp add: main_loop_unfold [of s])
  }
  {
    assume "int (delCount s3) < grandTotal s3"
    with f p show "main_loop s = main_loop (wait delaySearch s3)"
      by (simp add: main_loop_unfold [of s])
  }
  {
    from main_loop_first [of "wait delaySearch s3"] obtain evs where
      "trace (snd (main_loop (wait delaySearch s3))) =
         trace (enforceRateLimit (wait delaySearch s3)) @
           Fetch (search_request (wait delaySearch s3)) # evs" by blast
    then have "\<exists>g. new_events (wait delaySearch s3) (snd (main_loop (wait delaySearch s3))) =
        g @ Fetch (search_request (wait delaySearch s3)) # evs"
      by (rule new_events_gate)
    then show "requests (new_events (wait delaySearch s3)
        (snd (main_loop (wait delaySearch s3)))) \<noteq> []"
      by auto
  }
next
  assume "main_loop s = (Returned (), s')"
  then show "(\<exists>pre resp. server s = pre @ Response resp # server s' \<and>
        total_results (body resp) = 0) \<or>
      (grandTotal s' \<le> int (delCount s') \<and> (\<exists>tr. trace s' = tr @ [Wait delaySearch]))"
    by (rule main_loop_returned)
qed

definition no_results :: "reply list" where
  "no_results = [a_page 0 []]"

definition a_failed :: message where
  "a_failed = a_message ''m5'' ''me'' 0 True"

definition a_deleted :: message where
  "a_deleted = a_message ''m1'' ''me'' 0 True"

definition one_message :: "reply list" where
  "one_message = [a_page 1 [[a_deleted]], a_status 204 0]"

definition one_failure :: "reply list" where
  "one_failure = [a_page 2 [[a_failed]], a_status 403 0, a_page 0 []]"

theorem main_loop_exit_witness:
  "main_loop (a_deleter no_results) =
     (Returned (), latch (a_result 0 []) (snd (fetchMessages (a_deleter no_results)))) \<and>
   main_loop (a_deleter one_message) =
     (Returned (), wait delaySearch (snd (process_page (messages (a_result 1 [[a_deleted]]))
        (latch (a_result 1 [[a_deleted]]) (snd (fetchMessages (a_deleter one_message))))))) \<and>
   main_loop (a_deleter one_failure) =
     main_loop (wait delaySearch (snd (process_page (messages (a_result 2 [[a_failed]]))
        (latch (a_result 2 [[a_failed]]) (snd (fetchMessages (a_deleter one_failure))))))) \<and>
   fst (main_loop (a_deleter one_failure)) = Returned () \<and>
   ((\<exists>pre resp. server (a_deleter one_failure) =
        pre @ Response resp # server (snd (main_loop (a_deleter one_failure))) \<and>
        total_results (body resp) = 0) \<or>
    (grandTotal (snd (main_loop (a_deleter one_failure)))
       \<le> int (delCount (snd (main_loop (a_deleter one_failure)))) \<and>
     (\<exists>tr. trace (snd (main_loop (a_deleter one_failure))) = tr @ [Wait delaySearch])))"
proof -
  let ?s1 = "\<lambda>replies. snd (fetchMessages (a_deleter replies))"
  let ?s3 = "\<lambda>result replies. snd (process_page (messages result)
      (latch result (?s1 replies)))"
  have f0: "fst (fetchMessages (a_deleter no_results)) = Returned (a_result 0 [])"
    and z0: "total_results (a_result 0 []) = 0"
    by code_simp+
  have f1: "fst (fetchMessages (a_deleter one_message)) = Returned (a_result 1 [[a_deleted]])"
    and z1: "total_results (a_result 1 [[a_deleted]]) \<noteq> 0"
    and p1: "fst (process_page (messages (a_result 1 [[a_deleted]]))
      (latch (a_result 1 [[a_deleted]]) (?s1 one_message))) = Returned ()"
    and c1: "grandTotal (?s3 (a_result 1 [[a_deleted]]) one_message) \<le> int (delCount (?s3 (a_result 1 [[a_deleted]]) one_message))"
    by code_simp+
  have f2: "fst (fetchMessages (a_deleter one_failure)) = Returned (a_result 2 [[a_failed]])"
    and z2: "total_results (a_result 2 [[a_failed]]) \<noteq> 0"
    and p2: "fst (process_page (messages (a_result 2 [[a_failed]]))
      (latch (a_result 2 [[a_failed]]) (?s1 one_failure))) = Returned ()"
    and c2: "int (delCount (?s3 (a_result 2 [[a_failed]]) one_failure)) < grandTotal (?s3 (a_result 2 [[a_failed]]) one_failure)"
    and l2: "fst (main_loop (a_deleter one_failure)) = Returned ()"
    by code_simp+
  note a = main_loop_returns_exactly_on_exit_condition
    [of "a_deleter no_results" "a_result 0 []" "?s1 no_results"]
  note b = main_loop_returns_exactly_on_exit_condition
    [of "a_deleter one_message" "a_result 1 [[a_deleted]]" "?s1 one_message" "?s3 (a_result 1 [[a_deleted]]) one_message"]
  note c = main_loop_returns_exactly_on_exit_condition
    [of "a_deleter one_failure" "a_result 2 [[a_failed]]" "?s1 one_failure" "?s3 (a_result 2 [[a_failed]]) one_failure"
      "snd (main_loop (a_deleter one_failure))"]
  from a f0 z0 have "main_loop (a_deleter no_results) =
      (Returned (), latch (a_result 0 []) (?s1 no_results))"
    by (simp add: prod_eq_iff)
  moreover from b f1 z1 p1 c1 have "main_loop (a_deleter one_message) =
      (Returned (), wait delaySearch (?s3 (a_result 1 [[a_deleted]]) one_message))"
    by (simp add: prod_eq_iff)
  moreover from c f2 z2 p2 c2 have "main_loop (a_deleter one_failure) =
      main_loop (wait delaySearch (?s3 (a_result 2 [[a_failed]]) one_failure))"
    by (simp add: prod_eq_iff)
  moreover from c l2 have "(\<exists>pre resp. server (a_deleter one_failure) =
        pre @ Response resp # server (snd (main_loop (a_deleter one_failure))) \<and>
        total_results (body resp) = 0) \<or>
    (grandTotal (snd (main_loop (a_deleter one_failure)))
       \<le> int (delCount (snd (main_loop (a_deleter one_failure)))) \<and>
     (\<exists>tr. trace (snd (main_loop (a_deleter one_failure))) = tr @ [Wait delaySearch]))"
    by (simp add: prod_eq_iff)
  ultimately show ?thesis using l2 by blast
qed

section \<open>The cursor\<close>

text \<open>
  Reading a trace for the cursor: \<open>cursor_after c evs\<close> is the ID of the last message
  reported as deleted in \<open>evs\<close>, or \<open>c\<close> if there is none; \<open>max_id_follows c evs\<close> says that
  every search request of \<open>evs\<close> carries as \<open>max_id\<close> the truthy value of the cursor at that
  point, starting from the cursor \<open>c\<close>.
\<close>

fun cursor_after :: "string option \<Rightarrow> event list \<Rightarrow> string option" where
  "cursor_after c [] = c"
| "cursor_after c (Log (Successfully_Deleted m) # es) = cursor_after (Some m) es"
| "cursor_after c (e # es) = cursor_after c es"

fun max_id_follows :: "string option \<Rightarrow> event list \<Rightarrow> bool" where
  "max_id_follows c [] = True"
| "max_id_follows c (Log (Successfully_Deleted m) # es) = max_id_follows (Some m) es"
| "max_id_follows c (Fetch (Search_Request a ch u x) # es) =
     (x = truthy c \<and> max_id_follows c es)"
| "max_id_follows c (e # es) = max_id_follows c es"

lemma cursor_after_append:
  "cursor_after c (xs @ ys) = cursor_after (cursor_after c xs) ys"
  by (induction c xs rule: cursor_after.induct) simp_all

lemma max_id_follows_append:
  "max_id_follows c (xs @ ys) = (max_id_follows c xs \<and> max_id_follows (cursor_after c xs) ys)"
  by (induction c xs rule: max_id_follows.induct) simp_all

text \<open>Events that neither move the cursor nor are a search.\<close>

fun neutral :: "event \<Rightarrow> bool" where
  "neutral (Log (Successfully_Deleted m)) = False"
| "neutral (Fetch (Search_Request a ch u x)) = False"
| "neutral e = True"

lemma neutral_events:
  "list_all neutral evs \<Longrightarrow> max_id_follows c evs \<and> cursor_after c evs = c"
proof (induction evs)
  case Nil
  then show ?case by simp
next
  case (Cons e evs)
  then show ?case by (cases e rule: neutral.cases) simp_all
qed

lemma search_events_cursor:
  "list_all (search_event (Search_Request a ch u (truthy c))) evs \<Longrightarrow>
     max_id_follows c evs \<and> cursor_after c evs = c"
proof (induction evs)
  case Nil
  then show ?case by simp
next
  case (Cons e evs)
  then show ?case
    by (cases "(Search_Request a ch u (truthy c), e)" rule: search_event.cases) simp_all
qed

definition tracks :: "deleter \<Rightarrow> deleter \<Rightarrow> bool" where
  "tracks s s' =
     (\<exists>evs. trace s' = trace s @ evs \<and> max_id_follows (beforeMessageId s) evs \<and>
        beforeMessageId s' = cursor_after (beforeMessageId s) evs)"

lemma tracks_refl: "tracks s s"
  by (simp add: tracks_def)

lemma tracks_trans:
  assumes "tracks s s1" and "tracks s1 s2"
  shows "tracks s s2"
proof -
  from assms(1) obtain a where a: "trace s1 = trace s @ a" "max_id_follows (beforeMessageId s) a"
    "beforeMessageId s1 = cursor_after (beforeMessageId s) a"
    by (auto simp: tracks_def)
  from assms(2) obtain b where b: "trace s2 = trace s1 @ b" "max_id_follows (beforeMessageId s1) b"
    "beforeMessageId s2 = cursor_after (beforeMessageId s1) b"
    by (auto simp: tracks_def)
  from a b have "trace s2 = trace s @ (a @ b) \<and> max_id_follows (beforeMessageId s) (a @ b) \<and>
    beforeMessageId s2 = cursor_after (beforeMessageId s) (a @ b)"
    by (simp add: max_id_follows_append cursor_after_append)
  then show ?thesis unfolding tracks_def by blast
qed

lemma tracks_neutral:
  "trace s' = trace s @ evs \<Longrightarrow> list_all neutral evs \<Longrightarrow>
     beforeMessageId s' = beforeMessageId s \<Longrightarrow> tracks s s'"
  unfolding tracks_def using neutral_events by fastforce

lemma fetchMessages_tracks:
  assumes "fetchMessages s = (r, s')"
  shows "tracks s s'"
proof -
  from fetchMessages_extends [OF assms] obtain evs where
    evs: "trace s' = trace s @ evs" "list_all (search_event (search_request s)) evs"
    by (auto simp: extends_def)
  from evs(2) have "max_id_follows (beforeMessageId s) evs \<and>
      cursor_after (beforeMessageId s) evs = beforeMessageId s"
    unfolding search_request_def by (rule search_events_cursor)
  with evs(1) fetchMessages_frame [OF assms] show ?thesis
    unfolding tracks_def by auto
qed

lemma deleteMessage_tracks:
  "deleteMessage m s = (r, s') \<Longrightarrow> tracks s s'"
proof (induction s arbitrary: r s' rule: deleteMessage_induct [where m = m])
  case (Pending s)
  then show ?case
    by (auto simp: deleteMessage_unfold [of m s] enforceRateLimit_trace delete_request_def
        intro!: tracks_neutral)
next
  case (Failure s rs)
  then show ?case
    by (auto simp: deleteMessage_unfold [of m s] enforceRateLimit_trace delete_request_def
        intro!: tracks_neutral)
next
  case (Retry429 s resp rs)
  let ?s1 = "throttled (Rate_Limit_On_Deletion (retry_after (body resp)))
      (retry_after (body resp)) (sent (delete_request m s) s)"
  from Retry429.prems Retry429.hyps have "deleteMessage m ?s1 = (r, s')"
    by (simp add: deleteMessage_unfold [of m s])
  then have "tracks ?s1 s'" by (rule Retry429.IH)
  moreover have "tracks s ?s1"
    by (rule tracks_neutral) (auto simp: enforceRateLimit_trace delete_request_def)
  ultimately show ?case by (blast intro: tracks_trans)
next
  case (Final s resp rs)
  show ?case
  proof (cases "ok resp")
    case False
    with Final show ?thesis
      by (auto simp: deleteMessage_unfold [of m s] enforceRateLimit_trace delete_request_def
          intro!: tracks_neutral)
  next
    case True
    with Final have s': "s' = writeToLog (Successfully_Deleted m) False
        ((sent (delete_request m s) s)\<lparr>beforeMessageId := Some m\<rparr>)"
      by (simp add: deleteMessage_unfold [of m s])
    have "\<exists>g. trace s' = trace s @ (g @ [Log (Successfully_Deleted m)]) \<and> list_all neutral g"
      unfolding s' by (auto simp: enforceRateLimit_trace delete_request_def)
    then obtain g where g: "trace s' = trace s @ (g @ [Log (Successfully_Deleted m)])"
      "list_all neutral g" by blast
    from neutral_events [OF g(2), of "beforeMessageId s"]
    have "max_id_follows (beforeMessageId s) (g @ [Log (Successfully_Deleted m)]) \<and>
        cursor_after (beforeMessageId s) (g @ [Log (Successfully_Deleted m)]) = Some m"
      by (simp add: max_id_follows_append cursor_after_append)
    moreover have "beforeMessageId s' = Some m" by (simp add: s')
    ultimately show ?thesis using g(1) unfolding tracks_def by auto
  qed
qed

lemma process_message_tracks:
  assumes "process_message m s = (r, s')"
  shows "tracks s s'"
proof (cases "selected (authorId s) m")
  case False
  with assms show ?thesis by (simp add: process_message_skip tracks_refl)
next
  case True
  obtain d s3 where d: "deleteMessage (msg_id m) (announced m s) = (d, s3)"
    by (cases "deleteMessage (msg_id m) (announced m s)")
  have "tracks s (announced m s)"
    by (rule tracks_neutral [where evs = "[Log (Progress (delCount s + 1) (grandTotal s) (msg_id m)),
      Backup (backup_record m)]"]) (simp_all add: announced_def)
  with deleteMessage_tracks [OF d] have "tracks s s3"
    by (blast intro: tracks_trans)
  moreover have "tracks s3 s'"
  proof (cases d)
    case (Returned u)
    with assms d have "s' = wait delayDelete (s3\<lparr>delCount := delCount s3 + 1\<rparr>)"
      by (simp add: process_message_selected [OF True])
    then show ?thesis
      by (intro tracks_neutral [where evs = "[Wait delayDelete]"]) simp_all
  next
    case (Threw e)
    with assms d have "s' = (writeToLog (Error_Deleting (msg_id m) e) True s3)
        \<lparr>failCount := failCount s3 + 1\<rparr>"
      by (simp add: process_message_selected [OF True])
    then show ?thesis
      by (intro tracks_neutral [where evs = "[Error_Log (Error_Deleting (msg_id m) e)]"])
        simp_all
  next
    case Pending
    with assms d show ?thesis
      by (simp add: process_message_selected [OF True] tracks_refl)
  qed
  ultimately show ?thesis by (rule tracks_trans)
qed

lemma deleteMessages_tracks: "deleteMessages s = (r, s') \<Longrightarrow> tracks s s'"
proof (rule deleteMessages_lift [of tracks])
  show "tracks s s" for s by (rule tracks_refl)
  show "tracks s s1 \<Longrightarrow> tracks s1 s2 \<Longrightarrow> tracks s s2" for s s1 s2
    by (rule tracks_trans)
  show "fetchMessages s = (r, s') \<Longrightarrow> tracks s s'" for s r s'
    by (rule fetchMessages_tracks)
  show "tracks s (latch result s)" for result s
    by (cases "grandTotal s = 0")
      (auto simp: latch_def tracks_refl
        intro!: tracks_neutral [where evs = "[Log (Total_Messages_Found (total_results result))]"])
  show "process_message m s = (r, s') \<Longrightarrow> tracks s s'" for m s r s'
    by (rule process_message_tracks)
  show "tracks s (wait delaySearch s)" for s
    by (rule tracks_neutral [where evs = "[Wait delaySearch]"]) simp_all
  show "outer_line l \<Longrightarrow> tracks s (writeToLog l b s)" for l b s
    by (rule tracks_neutral [where evs = "[if b then Error_Log l else Log l]"])
      (cases l; simp)+
qed

lemma new_deleter_neutral:
  "list_all neutral (trace (new_deleter token aid cid bid t replies))"
  "beforeMessageId (new_deleter token aid cid bid t replies) = bid"
  by (simp_all add: new_deleter_def Let_def split: option.split)

lemma run_max_id_follows:
  "max_id_follows (env ''DISCORD_BEFORE_MESSAGE_ID'') (trace (snd (run env t replies)))"
proof -
  let ?c = "env ''DISCORD_BEFORE_MESSAGE_ID''"
  let ?s0 = "new_deleter (env ''DISCORD_AUTH_TOKEN'') (env ''DISCORD_AUTHOR_ID'')
       (env ''DISCORD_CHANNEL_ID'') ?c t replies"
  from run_trace [of env t replies] obtain r s' "end" where
    d: "deleteMessages ?s0 = (r, s')"
    and t: "trace (snd (run env t replies)) = trace s' @ end"
    and e: "end = [] \<or> (\<exists>e. r = Threw e \<and> end = [Fatal_Error e])"
    by blast
  from deleteMessages_tracks [OF d] obtain evs where
    evs: "trace s' = trace ?s0 @ evs" "max_id_follows ?c evs"
    by (auto simp: tracks_def new_deleter_neutral)
  have h: "max_id_follows ?c (trace ?s0) \<and> cursor_after ?c (trace ?s0) = ?c"
    by (rule neutral_events) (rule new_deleter_neutral)
  from e have "list_all neutral end" by auto
  then have "max_id_follows (cursor_after ?c evs) end"
    by (simp add: neutral_events)
  with h evs(2) have "max_id_follows ?c (trace ?s0 @ evs @ end)"
    by (simp add: max_id_follows_append cursor_after_append)
  with t evs(1) show ?thesis by simp
qed

text \<open>
  C5. When \<open>deleteMessage\<close> returns, the cursor \<open>beforeMessageId\<close> is the ID of the
  message just deleted, and the search request built from that state carries this ID as
  \<open>max_id\<close> if the ID is not the empty string, and no \<open>max_id\<close> if it is (the guard
  \<open>if (this.beforeMessageId)\<close> of \<open>fetchMessages\<close>). In the trace of every run of the
  script, each search request carries the truthy value of the ID of the message reported
  deleted last before it, or of the configured starting cursor if there is none.
\<close>

theorem cursor_is_last_deleted_id:
  "(deleteMessage m s = (Returned (), s') \<longrightarrow>
      beforeMessageId s' = Some m \<and>
      req_max_id (search_request s') = (if m = [] then None else Some m)) \<and>
   max_id_follows (env ''DISCORD_BEFORE_MESSAGE_ID'') (trace (snd (run env t replies)))"
proof (intro conjI impI)
  assume d: "deleteMessage m s = (Returned (), s')"
  from deleteMessage_frame [OF d] show b: "beforeMessageId s' = Some m" by simp
  then show "req_max_id (search_request s') = (if m = [] then None else Some m)"
    by (simp add: search_request_def truthy_def)
next
  show "max_id_follows (env ''DISCORD_BEFORE_MESSAGE_ID'') (trace (snd (run env t replies)))"
    by (rule run_max_id_follows)
qed

theorem cursor_is_last_deleted_id_witness:
  "fst (deleteMessage ''m1'' (a_deleter [a_status 204 0])) = Returned () \<and>
   beforeMessageId (snd (deleteMessage ''m1'' (a_deleter [a_status 204 0]))) = Some ''m1'' \<and>
   req_max_id (search_request (snd (deleteMessage ''m1'' (a_deleter [a_status 204 0])))) =
     Some ''m1''"
proof -
  have r: "fst (deleteMessage ''m1'' (a_deleter [a_status 204 0])) = Returned ()"
    by code_simp
  from cursor_is_last_deleted_id [of "''m1''" "a_deleter [a_status 204 0]"
      "snd (deleteMessage ''m1'' (a_deleter [a_status 204 0]))"] r
  show ?thesis by (simp add: prod_eq_iff)
qed

text \<open>
  A message whose ID is the empty string: the delete call succeeds, the cursor is the
  empty string, and the search that follows carries no \<open>max_id\<close>.
\<close>

definition empty_id_run :: "reply list" where
  "empty_id_run = [a_page 2 [[a_message [] ''me'' 0 True]], a_status 204 0, a_page 0 []]"

theorem empty_id_has_no_max_id:
  "delCount (snd (run an_env 1700000000000 empty_id_run)) = 1 \<and>
   beforeMessageId (snd (run an_env 1700000000000 empty_id_run)) = Some [] \<and>
   requests (trace (snd (run an_env 1700000000000 empty_id_run))) =
     [Search_Request (Some ''token'') (Some ''channel'') (Some ''me'') None,
      Delete_Request (Some ''token'') (Some ''channel'') [],
      Search_Request (Some ''token'') (Some ''channel'') (Some ''me'') None]"
proof (intro conjI)
  show "delCount (snd (run an_env 1700000000000 empty_id_run)) = 1"
    by code_simp
  show "beforeMessageId (snd (run an_env 1700000000000 empty_id_run)) = Some []"
    by code_simp
  show "requests (trace (snd (run an_env 1700000000000 empty_id_run))) =
     [Search_Request (Some ''token'') (Some ''channel'') (Some ''me'') None,
      Delete_Request (Some ''token'') (Some ''channel'') [],
      Search_Request (Some ''token'') (Some ''channel'') (Some ''me'') None]"
    by code_simp
qed

section \<open>Errors of the two calls\<close>

lemma process_message_never_throws: "process_message m s = (r, s') \<Longrightarrow> r \<noteq> Threw e"
  by (auto simp: process_message_def Let_def split: if_splits prod.splits outcome.splits)

lemma process_group_never_throws: "process_group ms s = (r, s') \<Longrightarrow> r \<noteq> Threw e"
proof (induction ms arbitrary: s)
  case Nil
  then show ?case by auto
next
  case (Cons m ms)
  obtain r1 s1 where m: "process_message m s = (r1, s1)"
    by (cases "process_message m s")
  with Cons.prems Cons.IH process_message_never_throws [OF m] show ?case
    by (cases r1) auto
qed

lemma process_page_never_throws: "process_page gs s = (r, s') \<Longrightarrow> r \<noteq> Threw e"
proof (induction gs arbitrary: s)
  case Nil
  then show ?case by auto
next
  case (Cons g gs)
  obtain r1 s1 where g: "process_group g s = (r1, s1)"
    by (cases "process_group g s")
  with Cons.prems Cons.IH process_group_never_throws [OF g] show ?case
    by (cases r1) auto
qed

lemma fetchMessages_throws:
  "fetchMessages s = (Threw e, s') \<Longrightarrow> e = Fetch_Rejected \<or> (\<exists>n. e = Api_Status n)"
proof (induction s rule: fetchMessages_induct)
  case (Pending s)
  then show ?case by (simp add: fetchMessages_unfold [of s])
next
  case (Failure s rs)
  then show ?case by (simp add: fetchMessages_unfold [of s])
next
  case (Retry202 s resp rs)
  then show ?case by (simp add: fetchMessages_unfold [of s])
next
  case (Retry429 s resp rs)
  then show ?case by (simp add: fetchMessages_unfold [of s])
next
  case (Final s resp rs)
  then show ?case by (auto simp: fetchMessages_unfold [of s] split: if_splits)
qed

lemma main_loop_throws_from_search:
  "main_loop s = (Threw e, s') \<Longrightarrow> \<exists>s0. fetchMessages s0 = (Threw e, s')"
proof (induction s rule: main_loop_induct)
  case (Stop s r1 s1)
  then show ?case by (auto simp: main_loop_unfold [of s])
next
  case (Empty s result s1)
  then show ?case by (simp add: main_loop_unfold [of s])
next
  case (Interrupted s result s1 r3 s3)
  from process_page_never_throws [OF Interrupted(3)] Interrupted show ?case
    by (cases r3) (simp_all add: main_loop_unfold [of s])
next
  case (Done s result s1 s3)
  then show ?case by (simp add: main_loop_unfold [of s])
next
  case (Again s result s1 s3)
  then have "main_loop (wait delaySearch s3) = (Threw e, s')"
    by (simp add: main_loop_unfold [of s])
  then show ?case by (rule Again.IH)
qed

text \<open>
  C6. A reply to a delete call that is neither a 429 nor a success, or a failed transport,
  makes \<open>deleteMessage\<close> throw. When \<open>deleteMessage\<close> throws for a selected message, the
  body of the loop returns: the error is written to the error log, \<open>failCount\<close> is one
  more, \<open>delCount\<close> is unchanged, and both loops go on: the loop over the group with its
  next message, and the loop over the page with the rest of the group and the groups
  after it.
  A reply to a search that is neither a 202, a 429 nor a success, or a failed transport,
  makes \<open>fetchMessages\<close> throw; then the loop throws the same error, and \<open>deleteMessages\<close>
  writes the error to the error log, prints the summary and throws it again. The loop
  throws only an error thrown by \<open>fetchMessages\<close>.
\<close>

theorem delete_errors_are_counted_search_errors_are_fatal:
  "(server s = Response resp # rs \<and> status resp \<noteq> 429 \<and> \<not> ok resp \<longrightarrow>
      fst (deleteMessage i s) = Threw (Delete_Failed i (status resp))) \<and>
   (server s = Network_Failure # rs \<longrightarrow>
      fst (deleteMessage i s) = Threw Fetch_Rejected \<and>
      fst (fetchMessages s) = Threw Fetch_Rejected) \<and>
   (selected (authorId s) m \<and> deleteMessage (msg_id m) (announced m s) = (Threw e, s3) \<longrightarrow>
      (\<exists>s'. process_message m s = (Returned (), s') \<and>
         trace s' = trace s3 @ [Error_Log (Error_Deleting (msg_id m) e)] \<and>
         failCount s' = failCount s + 1 \<and> delCount s' = delCount s \<and>
         process_group (m # ms) s = process_group ms s' \<and>
         process_page ((m # ms) # gs) s = process_page (ms # gs) s')) \<and>
   (server s = Response resp # rs \<and> status resp \<noteq> 202 \<and> status resp \<noteq> 429 \<and> \<not> ok resp \<longrightarrow>
      fst (fetchMessages s) = Threw (Api_Status (status resp))) \<and>
   (fetchMessages s = (Threw e, s1) \<longrightarrow> main_loop s = (Threw e, s1)) \<and>
   (main_loop (writeToLog (Starting_Deletion (startTime s)) False s) = (Threw e, s1) \<longrightarrow>
      (\<exists>s'. deleteMessages s = (Threw e, s') \<and>
         trace s' = trace s1 @
           [Error_Log (Error_During_Processing e),
            Log (Summary (now s1) (now s1 - startTime s1) (throttledCount s1)
                   (throttledTotalTime s1) (delCount s1) (failCount s1))])) \<and>
   (main_loop s = (Threw e, s1) \<longrightarrow>
      (\<exists>s0. fetchMessages s0 = (Threw e, s1)) \<and> (\<forall>i n. e \<noteq> Delete_Failed i n))"
proof (intro conjI impI)
  assume "server s = Response resp # rs \<and> status resp \<noteq> 429 \<and> \<not> ok resp"
  then show "fst (deleteMessage i s) = Threw (Delete_Failed i (status resp))"
    by (simp add: deleteMessage_unfold [of i s])
next
  assume n: "server s = Network_Failure # rs"
  then show "fst (deleteMessage i s) = Threw Fetch_Rejected"
    by (simp add: deleteMessage_unfold [of i s])
  from n show "fst (fetchMessages s) = Threw Fetch_Rejected"
    by (simp add: fetchMessages_unfold [of s])
next
  assume a: "selected (authorId s) m \<and> deleteMessage (msg_id m) (announced m s) = (Threw e, s3)"
  let ?s' = "(writeToLog (Error_Deleting (msg_id m) e) True s3)\<lparr>failCount := failCount s3 + 1\<rparr>"
  from a have p: "process_message m s = (Returned (), ?s')"
    by (simp add: process_message_selected)
  from a deleteMessage_frame [of "msg_id m" "announced m s" "Threw e" s3]
  have "failCount s3 = failCount s" "delCount s3 = delCount s"
    by (simp_all add: announced_def)
  with p show "\<exists>s'. process_message m s = (Returned (), s') \<and>
      trace s' = trace s3 @ [Error_Log (Error_Deleting (msg_id m) e)] \<and>
      failCount s' = failCount s + 1 \<and> delCount s' = delCount s \<and>
      process_group (m # ms) s = process_group ms s' \<and>
      process_page ((m # ms) # gs) s = process_page (ms # gs) s'"
    by (intro exI [of _ ?s']) simp
next
  assume "server s = Response resp # rs \<and> status resp \<noteq> 202 \<and> status resp \<noteq> 429 \<and> \<not> ok resp"
  then show "fst (fetchMessages s) = Threw (Api_Status (status resp))"
    by (simp add: fetchMessages_unfold [of s])
next
  assume "fetchMessages s = (Threw e, s1)"
  then show "main_loop s = (Threw e, s1)"
    by (simp add: main_loop_unfold [of s])
next
  assume l: "main_loop (writeToLog (Starting_Deletion (startTime s)) False s) = (Threw e, s1)"
  let ?s' = "printSummary (writeToLog (Error_During_Processing e) True s1)"
  from l have "deleteMessages s = (Threw e, ?s')"
    by (simp add: deleteMessages_def)
  then show "\<exists>s'. deleteMessages s = (Threw e, s') \<and>
      trace s' = trace s1 @
        [Error_Log (Error_During_Processing e),
         Log (Summary (now s1) (now s1 - startTime s1) (throttledCount s1)
                (throttledTotalTime s1) (delCount s1) (failCount s1))]"
    by (intro exI [of _ ?s']) (simp add: printSummary_def)
next
  assume l: "main_loop s = (Threw e, s1)"
  then show "\<exists>s0. fetchMessages s0 = (Threw e, s1)"
    by (rule main_loop_throws_from_search)
  from main_loop_throws_from_search [OF l] show "\<forall>i n. e \<noteq> Delete_Failed i n"
    by (auto dest: fetchMessages_throws)
qed

definition failing_delete :: deleter where
  "failing_delete = a_deleter [a_status 403 0, a_status 204 0]"

definition failing_search :: deleter where
  "failing_search = a_deleter [a_status 500 0]"

theorem delete_and_search_errors_witness:
  "fst (deleteMessage ''m5'' failing_delete) = Threw (Delete_Failed ''m5'' 403) \<and>
   fst (deleteMessage ''m5'' (a_deleter [Network_Failure])) = Threw Fetch_Rejected \<and>
   (\<exists>s'. process_message a_failed failing_delete = (Returned (), s') \<and>
      failCount s' = 1 \<and> delCount s' = 0 \<and>
      process_group [a_failed, a_deleted] failing_delete = process_group [a_deleted] s') \<and>
   (\<exists>s'. process_message a_failed failing_delete = (Returned (), s') \<and>
      process_page [[a_failed], [a_deleted]] failing_delete =
        process_page [[], [a_deleted]] s') \<and>
   fst (process_page [[a_failed], [a_deleted]] failing_delete) = Returned () \<and>
   failCount (snd (process_page [[a_failed], [a_deleted]] failing_delete)) = 1 \<and>
   delCount (snd (process_page [[a_failed], [a_deleted]] failing_delete)) = 1 \<and>
   delete_calls (new_events failing_delete
     (snd (process_page [[a_failed], [a_deleted]] failing_delete))) = [''m5'', ''m1''] \<and>
   fst (fetchMessages failing_search) = Threw (Api_Status 500) \<and>
   fst (main_loop failing_search) = Threw (Api_Status 500) \<and>
   fst (deleteMessages failing_search) = Threw (Api_Status 500)"
proof -
  let ?resp = "\<lambda>code. \<lparr>status = code,
      body = \<lparr>retry_after = 0, total_results = 0, messages = []\<rparr>\<rparr>"
  have d: "server failing_delete = Response (?resp 403) # [a_status 204 0]"
    and q: "server failing_search = Response (?resp 500) # []"
    and n: "server (a_deleter [Network_Failure]) = Network_Failure # []"
    and c: "failCount failing_delete = 0" "delCount failing_delete = 0"
    by (simp_all add: failing_delete_def failing_search_def a_deleter_def a_status_def
        new_deleter_def Let_def truthy_def)
  have k: "\<not> ok (?resp 403)" "\<not> ok (?resp 500)"
    by (simp_all add: ok_def)
  have sel: "selected (authorId failing_delete) a_failed"
    and i: "msg_id a_failed = ''m5''"
    and t: "fst (deleteMessage (msg_id a_failed) (announced a_failed failing_delete)) =
      Threw (Delete_Failed ''m5'' 403)"
    and f: "fst (fetchMessages failing_search) = Threw (Api_Status 500)"
    and l: "fst (main_loop failing_search) = Threw (Api_Status 500)"
    and l0: "fst (main_loop (writeToLog (Starting_Deletion (startTime failing_search)) False
      failing_search)) = Threw (Api_Status 500)"
    by code_simp+
  note a = delete_errors_are_counted_search_errors_are_fatal
    [where s = failing_delete and resp = "?resp 403" and rs = "[a_status 204 0]"
      and i = "''m5''" and m = a_failed and e = "Delete_Failed ''m5'' 403"
      and ?s3.0 = "snd (deleteMessage (msg_id a_failed) (announced a_failed failing_delete))"
      and ms = "[a_deleted]"]
  note a2 = delete_errors_are_counted_search_errors_are_fatal
    [where s = failing_delete and m = a_failed and e = "Delete_Failed ''m5'' 403"
      and ?s3.0 = "snd (deleteMessage (msg_id a_failed) (announced a_failed failing_delete))"
      and ms = "[]" and gs = "[[a_deleted]]"]
  have pg: "fst (process_page [[a_failed], [a_deleted]] failing_delete) = Returned ()"
    "failCount (snd (process_page [[a_failed], [a_deleted]] failing_delete)) = 1"
    "delCount (snd (process_page [[a_failed], [a_deleted]] failing_delete)) = 1"
    "delete_calls (new_events failing_delete
       (snd (process_page [[a_failed], [a_deleted]] failing_delete))) = [''m5'', ''m1'']"
    by code_simp+
  note b = delete_errors_are_counted_search_errors_are_fatal
    [where s = "a_deleter [Network_Failure]" and rs = "[]" and i = "''m5''"]
  note c' = delete_errors_are_counted_search_errors_are_fatal
    [where s = failing_search and resp = "?resp 500" and rs = "[]" and e = "Api_Status 500"
      and ?s1.0 = "snd (fetchMessages failing_search)"]
  note d' = delete_errors_are_counted_search_errors_are_fatal
    [where s = failing_search and e = "Api_Status 500"
      and ?s1.0 = "snd (main_loop (writeToLog (Starting_Deletion (startTime failing_search))
        False failing_search))"]
  from a d k have "fst (deleteMessage ''m5'' failing_delete) = Threw (Delete_Failed ''m5'' 403)"
    by simp
  moreover from b n have "fst (deleteMessage ''m5'' (a_deleter [Network_Failure])) =
      Threw Fetch_Rejected"
    by simp
  moreover from a sel t c have "\<exists>s'. process_message a_failed failing_delete = (Returned (), s') \<and>
      failCount s' = 1 \<and> delCount s' = 0 \<and>
      process_group [a_failed, a_deleted] failing_delete = process_group [a_deleted] s'"
    by (auto simp: prod_eq_iff)
  moreover from a2 sel t have "\<exists>s'. process_message a_failed failing_delete = (Returned (), s') \<and>
      process_page [[a_failed], [a_deleted]] failing_delete =
        process_page [[], [a_deleted]] s'"
    by (auto simp: prod_eq_iff)
  moreover from c' q k have "fst (fetchMessages failing_search) = Threw (Api_Status 500)"
    by simp
  moreover from c' f have "fst (main_loop failing_search) = Threw (Api_Status 500)"
    by (simp add: prod_eq_iff)
  moreover from d' l0 have "fst (deleteMessages failing_search) = Threw (Api_Status 500)"
    by (auto simp: prod_eq_iff)
  ultimately show ?thesis using pg by blast
qed

section \<open>The script\<close>

text \<open>
  C7. When \<open>deleteMessages\<close> throws, the script prints the error with \<open>console.error\<close>
  and the process then ends with exit status 0, the status of a normal completion; a run
  never ends with another status.
\<close>

theorem fatal_error_is_logged_and_exit_status_is_zero:
  "(deleteMessages (new_deleter (env ''DISCORD_AUTH_TOKEN'') (env ''DISCORD_AUTHOR_ID'')
       (env ''DISCORD_CHANNEL_ID'') (env ''DISCORD_BEFORE_MESSAGE_ID'') t replies) = (Threw e, s1) \<longrightarrow>
      run env t replies = (Some 0, emit (Fatal_Error e) s1)) \<and>
   (deleteMessages (new_deleter (env ''DISCORD_AUTH_TOKEN'') (env ''DISCORD_AUTHOR_ID'')
       (env ''DISCORD_CHANNEL_ID'') (env ''DISCORD_BEFORE_MESSAGE_ID'') t replies) = (Returned (), s1) \<longrightarrow>
      run env t replies = (Some 0, s1)) \<and>
   (fst (run env t replies) = None \<or> fst (run env t replies) = Some 0)"
  by (cases "deleteMessages (new_deleter (env ''DISCORD_AUTH_TOKEN'') (env ''DISCORD_AUTHOR_ID'')
       (env ''DISCORD_CHANNEL_ID'') (env ''DISCORD_BEFORE_MESSAGE_ID'') t replies)")
    (auto simp: run_def Let_def split: outcome.split)

theorem fatal_error_exit_status_witness:
  "fst (deleteMessages (new_deleter (an_env ''DISCORD_AUTH_TOKEN'') (an_env ''DISCORD_AUTHOR_ID'')
       (an_env ''DISCORD_CHANNEL_ID'') (an_env ''DISCORD_BEFORE_MESSAGE_ID'') 1700000000000
       [a_status 500 0])) = Threw (Api_Status 500) \<and>
   fst (run an_env 1700000000000 [a_status 500 0]) = Some 0 \<and>
   fst (deleteMessages (new_deleter (an_env ''DISCORD_AUTH_TOKEN'') (an_env ''DISCORD_AUTHOR_ID'')
       (an_env ''DISCORD_CHANNEL_ID'') (an_env ''DISCORD_BEFORE_MESSAGE_ID'') 1700000000000
       one_message)) = Returned () \<and>
   fst (run an_env 1700000000000 one_message) = Some 0"
proof -
  let ?d = "\<lambda>replies. deleteMessages (new_deleter (an_env ''DISCORD_AUTH_TOKEN'')
      (an_env ''DISCORD_AUTHOR_ID'') (an_env ''DISCORD_CHANNEL_ID'')
      (an_env ''DISCORD_BEFORE_MESSAGE_ID'') 1700000000000 replies)"
  have a: "fst (?d [a_status 500 0]) = Threw (Api_Status 500)"
    and b: "fst (?d one_message) = Returned ()"
    by code_simp+
  from fatal_error_is_logged_and_exit_status_is_zero
    [of an_env 1700000000000 "[a_status 500 0]" "Api_Status 500" "snd (?d [a_status 500 0])"] a
  have "fst (run an_env 1700000000000 [a_status 500 0]) = Some 0"
    by (simp add: prod_eq_iff)
  moreover from fatal_error_is_logged_and_exit_status_is_zero
    [of an_env 1700000000000 one_message _ "snd (?d one_message)"] b
  have "fst (run an_env 1700000000000 one_message) = Some 0"
    by (simp add: prod_eq_iff)
  ultimately show ?thesis using a b by simp
qed

text \<open>A search that fails with status 500: the error is printed and the status is 0.\<close>

theorem fatal_error_exits_with_zero:
  "fst (run an_env 1700000000000 [a_status 500 0]) = Some 0 \<and>
   last (trace (snd (run an_env 1700000000000 [a_status 500 0]))) = Fatal_Error (Api_Status 500)"
proof (intro conjI)
  show "fst (run an_env 1700000000000 [a_status 500 0]) = Some 0"
    by code_simp
  show "last (trace (snd (run an_env 1700000000000 [a_status 500 0]))) =
      Fatal_Error (Api_Status 500)"
    by code_simp
qed

definition env_without_token :: "string \<rightharpoonup> string" where
  "env_without_token = [''DISCORD_AUTHOR_ID'' \<mapsto> ''me'', ''DISCORD_CHANNEL_ID'' \<mapsto> ''channel'']"

text \<open>
  C8. The script does not check the configuration. With \<open>DISCORD_AUTH_TOKEN\<close> not set
  the deleter is built with an undefined token, the session starts, and the search call
  is issued without a credential.
\<close>

theorem missing_token_still_searches:
  "env_without_token ''DISCORD_AUTH_TOKEN'' = None \<and>
   requests (trace (snd (run env_without_token 1700000000000 [a_status 401 0]))) =
     [Search_Request None (Some ''channel'') (Some ''me'') None] \<and>
   last (trace (snd (run env_without_token 1700000000000 [a_status 401 0]))) =
     Fatal_Error (Api_Status 401)"
proof (intro conjI)
  show "env_without_token ''DISCORD_AUTH_TOKEN'' = None"
    by (simp add: env_without_token_def)
  show "requests (trace (snd (run env_without_token 1700000000000 [a_status 401 0]))) =
      [Search_Request None (Some ''channel'') (Some ''me'') None]"
    by code_simp
  show "last (trace (snd (run env_without_token 1700000000000 [a_status 401 0]))) =
      Fatal_Error (Api_Status 401)"
    by code_simp
qed

section \<open>The total is taken once\<close>

text \<open>
  The totals a trace reports: \<open>grandTotal\<close> is assigned on line 227 and the assignment is
  logged on line 228, so these are the values assigned to \<open>grandTotal\<close>, in order.
\<close>

fun totals :: "event list \<Rightarrow> int list" where
  "totals [] = []"
| "totals (Log (Total_Messages_Found n) # es) = n # totals es"
| "totals (e # es) = totals es"

lemma totals_append [simp]: "totals (xs @ ys) = totals xs @ totals ys"
  by (induction xs rule: totals.induct) simp_all




















section \<open>A failed deletion\<close>

text \<open>
  When \<open>deleteMessage\<close> throws, the replies it took are 429 responses followed by the
  reply that made it throw, and the throttle statistics have grown by their number and by
  the sum of their \<open>retry_after\<close>.
\<close>

lemma deleteMessage_throws:
  "deleteMessage i s = (Threw e, s') \<Longrightarrow>
     \<exists>pre final. server s = map Response pre @ final # server s' \<and>
       list_all (\<lambda>x. status x = 429) pre \<and>
       throttledCount s' = throttledCount s + length pre \<and>
       throttledTotalTime s' = throttledTotalTime s + sum_list (map (\<lambda>x. retry_after (body x)) pre) \<and>
       (final = Network_Failure \<and> e = Fetch_Rejected \<or>
        (\<exists>x. final = Response x \<and> status x \<noteq> 429 \<and> \<not> ok x \<and> e = Delete_Failed i (status x)))"
proof (induction s rule: deleteMessage_induct [where m = i])
  case (Pending s)
  then show ?case by (simp add: deleteMessage_unfold [of i s])
next
  case (Failure s rs)
  then have "s' = sent (delete_request i s) s" "e = Fetch_Rejected"
    by (simp_all add: deleteMessage_unfold [of i s])
  with Failure(1) show ?case
    by (intro exI [of _ "[]"] exI [of _ Network_Failure]) simp
next
  case (Retry429 s resp rs)
  let ?s1 = "throttled (Rate_Limit_On_Deletion (retry_after (body resp)))
      (retry_after (body resp)) (sent (delete_request i s) s)"
  from Retry429.prems Retry429.hyps have "deleteMessage i ?s1 = (Threw e, s')"
    by (simp add: deleteMessage_unfold [of i s])
  from Retry429.IH [OF this] obtain pre final where
    p: "server ?s1 = map Response pre @ final # server s'"
      "list_all (\<lambda>x. status x = 429) pre"
      "throttledCount s' = throttledCount ?s1 + length pre"
      "throttledTotalTime s' =
         throttledTotalTime ?s1 + sum_list (map (\<lambda>x. retry_after (body x)) pre)"
      "final = Network_Failure \<and> e = Fetch_Rejected \<or>
        (\<exists>x. final = Response x \<and> status x \<noteq> 429 \<and> \<not> ok x \<and> e = Delete_Failed i (status x))"
    by blast
  from p(1-4) Retry429.hyps have
    "server s = map Response (resp # pre) @ final # server s' \<and>
     list_all (\<lambda>x. status x = 429) (resp # pre) \<and>
     throttledCount s' = throttledCount s + length (resp # pre) \<and>
     throttledTotalTime s' =
       throttledTotalTime s + sum_list (map (\<lambda>x. retry_after (body x)) (resp # pre))"
    by simp
  with p(5) show ?case by blast
next
  case (Final s resp rs)
  then have "\<not> ok resp" "s' = sent (delete_request i s) s" "e = Delete_Failed i (status resp)"
    by (auto simp: deleteMessage_unfold [of i s] split: if_splits)
  with Final(1,2) show ?case
    by (intro exI [of _ "[]"] exI [of _ "Response resp"]) simp
qed

text \<open>
  C10. When \<open>deleteMessage\<close> throws, the cursor, \<open>delCount\<close>, \<open>failCount\<close>, \<open>grandTotal\<close>
  and the start time are as before the call, and the throttle statistics have grown by
  the 429 responses received before the error. When that happens for a selected message,
  the body of the loop leaves the cursor, \<open>delCount\<close>, \<open>grandTotal\<close> and the start time as
  they were, \<open>failCount\<close> is one more, and the throttle statistics are those
  \<open>deleteMessage\<close> left.
\<close>

theorem failed_deletion_changes_only_failCount:
  "(deleteMessage i s = (Threw e, s') \<longrightarrow>
      beforeMessageId s' = beforeMessageId s \<and> delCount s' = delCount s \<and>
      failCount s' = failCount s \<and> grandTotal s' = grandTotal s \<and>
      startTime s' = startTime s \<and>
      (\<exists>pre final. server s = map Response pre @ final # server s' \<and>
         list_all (\<lambda>x. status x = 429) pre \<and>
         throttledCount s' = throttledCount s + length pre \<and>
         throttledTotalTime s' =
           throttledTotalTime s + sum_list (map (\<lambda>x. retry_after (body x)) pre))) \<and>
   (selected (authorId s) m \<and> deleteMessage (msg_id m) (announced m s) = (Threw e, s3) \<longrightarrow>
      beforeMessageId (snd (process_message m s)) = beforeMessageId s \<and>
      delCount (snd (process_message m s)) = delCount s \<and>
      failCount (snd (process_message m s)) = failCount s + 1 \<and>
      grandTotal (snd (process_message m s)) = grandTotal s \<and>
      startTime (snd (process_message m s)) = startTime s \<and>
      (\<exists>pre final. server s = map Response pre @ final # server (snd (process_message m s)) \<and>
         list_all (\<lambda>x. status x = 429) pre \<and>
         throttledCount (snd (process_message m s)) = throttledCount s + length pre \<and>
         throttledTotalTime (snd (process_message m s)) =
           throttledTotalTime s + sum_list (map (\<lambda>x. retry_after (body x)) pre)))"
proof (intro conjI impI)
  assume d: "deleteMessage i s = (Threw e, s')"
  from deleteMessage_frame [OF d]
  show "beforeMessageId s' = beforeMessageId s" "delCount s' = delCount s"
    "failCount s' = failCount s" "grandTotal s' = grandTotal s" "startTime s' = startTime s"
    by simp_all
  from deleteMessage_throws [OF d]
  show "\<exists>pre final. server s = map Response pre @ final # server s' \<and>
      list_all (\<lambda>x. status x = 429) pre \<and>
      throttledCount s' = throttledCount s + length pre \<and>
      throttledTotalTime s' =
        throttledTotalTime s + sum_list (map (\<lambda>x. retry_after (body x)) pre)"
    by blast
next
  assume a: "selected (authorId s) m \<and> deleteMessage (msg_id m) (announced m s) = (Threw e, s3)"
  then have d: "deleteMessage (msg_id m) (announced m s) = (Threw e, s3)" by simp
  from a have p: "snd (process_message m s) =
      (writeToLog (Error_Deleting (msg_id m) e) True s3)\<lparr>failCount := failCount s3 + 1\<rparr>"
    by (simp add: process_message_selected)
  from deleteMessage_frame [OF d]
  show "beforeMessageId (snd (process_message m s)) = beforeMessageId s"
    "delCount (snd (process_message m s)) = delCount s"
    "failCount (snd (process_message m s)) = failCount s + 1"
    "grandTotal (snd (process_message m s)) = grandTotal s"
    "startTime (snd (process_message m s)) = startTime s"
    unfolding p by (simp_all add: announced_def)
  from deleteMessage_throws [OF d] obtain pre final where
    "server (announced m s) = map Response pre @ final # server s3"
    "list_all (\<lambda>x. status x = 429) pre"
    "throttledCount s3 = throttledCount (announced m s) + length pre"
    "throttledTotalTime s3 =
       throttledTotalTime (announced m s) + sum_list (map (\<lambda>x. retry_after (body x)) pre)"
    by blast
  then have "server s = map Response pre @ final # server (snd (process_message m s)) \<and>
      list_all (\<lambda>x. status x = 429) pre \<and>
      throttledCount (snd (process_message m s)) = throttledCount s + length pre \<and>
      throttledTotalTime (snd (process_message m s)) =
        throttledTotalTime s + sum_list (map (\<lambda>x. retry_after (body x)) pre)"
    unfolding p by (simp add: announced_def)
  then show "\<exists>pre final. server s = map Response pre @ final # server (snd (process_message m s)) \<and>
      list_all (\<lambda>x. status x = 429) pre \<and>
      throttledCount (snd (process_message m s)) = throttledCount s + length pre \<and>
      throttledTotalTime (snd (process_message m s)) =
        throttledTotalTime s + sum_list (map (\<lambda>x. retry_after (body x)) pre)"
    by blast
qed

definition throttled_then_refused :: deleter where
  "throttled_then_refused = a_deleter [a_status 429 5000, a_status 403 0, a_status 204 0]"

theorem failed_deletion_witness:
  "selected (authorId throttled_then_refused) a_failed \<and>
   fst (deleteMessage ''m5'' throttled_then_refused) = Threw (Delete_Failed ''m5'' 403) \<and>
   beforeMessageId (snd (deleteMessage ''m5'' throttled_then_refused)) = None \<and>
   delCount (snd (deleteMessage ''m5'' throttled_then_refused)) = 0 \<and>
   failCount (snd (deleteMessage ''m5'' throttled_then_refused)) = 0 \<and>
   throttledCount (snd (deleteMessage ''m5'' throttled_then_refused)) = 1 \<and>
   throttledTotalTime (snd (deleteMessage ''m5'' throttled_then_refused)) = 5000 \<and>
   beforeMessageId (snd (process_message a_failed throttled_then_refused)) = None \<and>
   delCount (snd (process_message a_failed throttled_then_refused)) = 0 \<and>
   failCount (snd (process_message a_failed throttled_then_refused)) = 1 \<and>
   grandTotal (snd (process_message a_failed throttled_then_refused)) = 0"
proof -
  let ?s = throttled_then_refused
  have sel: "selected (authorId ?s) a_failed"
    and i: "msg_id a_failed = ''m5''"
    and t: "fst (deleteMessage ''m5'' ?s) = Threw (Delete_Failed ''m5'' 403)"
    and t': "fst (deleteMessage (msg_id a_failed) (announced a_failed ?s)) =
      Threw (Delete_Failed ''m5'' 403)"
    and c: "throttledCount (snd (deleteMessage ''m5'' ?s)) = 1"
      "throttledTotalTime (snd (deleteMessage ''m5'' ?s)) = 5000"
    and z: "beforeMessageId ?s = None" "delCount ?s = 0" "failCount ?s = 0" "grandTotal ?s = 0"
    by code_simp+
  note a = failed_deletion_changes_only_failCount
    [where s = ?s and i = "''m5''" and e = "Delete_Failed ''m5'' 403"
      and s' = "snd (deleteMessage ''m5'' ?s)" and m = a_failed
      and ?s3.0 = "snd (deleteMessage (msg_id a_failed) (announced a_failed ?s))"]
  from a t z have "beforeMessageId (snd (deleteMessage ''m5'' ?s)) = None \<and>
      delCount (snd (deleteMessage ''m5'' ?s)) = 0 \<and>
      failCount (snd (deleteMessage ''m5'' ?s)) = 0"
    by (simp add: prod_eq_iff)
  moreover from a sel t' z have "beforeMessageId (snd (process_message a_failed ?s)) = None \<and>
      delCount (snd (process_message a_failed ?s)) = 0 \<and>
      failCount (snd (process_message a_failed ?s)) = 1 \<and>
      grandTotal (snd (process_message a_failed ?s)) = 0"
    by (simp add: prod_eq_iff)
  ultimately show ?thesis using sel t c by simp
qed

end
